theory Spec2Isabelle
  imports Complex_Main "HOL-Library.AList" "HOL-Library.Char_ord" "HOL-Library.List_Lexorder"
    "HOL-Library.Product_Lexorder"
begin

section \<open>Cobweb concept nodes\<close>

text \<open>
  A shallow embedding of \<^verbatim>\<open>class Cobweb\<close> of \<^verbatim>\<open>cobweb.py\<close>.

  \<^item> A node is a value of the datatype \<open>node\<close>: its \<^verbatim>\<open>count\<close>, its
    \<^verbatim>\<open>av_counts\<close> and the list of its \<^verbatim>\<open>children\<close>. The fields
    \<^verbatim>\<open>concept_name\<close> and \<^verbatim>\<open>parent\<close> are written but never read by the
    methods embedded here, and are left out. The source compares nodes by identity
    (\<^verbatim>\<open>c == child\<close>, \<^verbatim>\<open>children.remove(best)\<close>); a child is identified here by its
    position in the list of children of its parent, and a node of a tree by the path
    of positions that leads to it.
  \<^item> A Python \<^verbatim>\<open>dict\<close> is an association list in insertion order;
    \<^verbatim>\<open>d[k] = v\<close> is \<open>AList.update\<close>, which replaces in place or appends.
  \<^item> Python's \<^verbatim>\<open>int\<close> is \<open>int\<close>. Python's \<^verbatim>\<open>float\<close> is idealised as
    \<open>real\<close>: sums, products and quotients are exact, and a division by zero
    raises \<^verbatim>\<open>ZeroDivisionError\<close>.
  \<^item> Every \<^verbatim>\<open>raise\<close> is a value \<open>Inl e\<close> of the result type \<open>error + 'a\<close>.
\<close>

datatype error =
    NoChildren
  | ZeroDivisionError
  | ValueError
  | IndexError
  | AttributeError
  | ShouldNeverGetHere

type_synonym ('a, 'v) avc = "('a \<times> ('v \<times> int) list) list"

type_synonym ('a, 'v) inst = "('a \<times> 'v) list"

datatype ('a, 'v) node =
  Node (count: int) (av_counts: "('a, 'v) avc") (children: "('a, 'v) node list")

text \<open>\<^verbatim>\<open>Cobweb()\<close>: count 0, no counts, no children.\<close>

definition new_node :: "('a, 'v) node" where
  "new_node = Node 0 [] []"

text \<open>\<^verbatim>\<open>d.get(k, x)\<close>.\<close>

definition dict_get :: "('k \<times> 'x) list \<Rightarrow> 'k \<Rightarrow> 'x \<Rightarrow> 'x" where
  "dict_get d k x = (case map_of d k of None \<Rightarrow> x | Some y \<Rightarrow> y)"

text \<open>
  The body shared by the loops of \<^verbatim>\<open>increment_counts\<close> and
  \<^verbatim>\<open>update_counts_from_node\<close>:
  \<^verbatim>\<open>av[attr] = av.setdefault(attr, {}); av[attr][val] = av[attr].get(val, 0) + k\<close>.
\<close>

definition av_add :: "'a \<Rightarrow> 'v \<Rightarrow> int \<Rightarrow> ('a, 'v) avc \<Rightarrow> ('a, 'v) avc" where
  "av_add a v k av =
     (let inner = dict_get av a []
      in AList.update a (AList.update v (dict_get inner v 0 + k) inner) av)"

definition increment_counts :: "('a, 'v) node \<Rightarrow> ('a, 'v) inst \<Rightarrow> ('a, 'v) node" where
  "increment_counts n inst =
     Node (count n + 1)
          (fold (\<lambda>(a, v) av. av_add a v 1 av) inst (av_counts n))
          (children n)"

definition update_counts_from_node :: "('a, 'v) node \<Rightarrow> ('a, 'v) node \<Rightarrow> ('a, 'v) node" where
  "update_counts_from_node n other =
     Node (count n + count other)
          (fold (\<lambda>(a, vs) av. fold (\<lambda>(v, c) av'. av_add a v c av') vs av)
                (av_counts other) (av_counts n))
          (children n)"

text \<open>The accumulation step of \<^verbatim>\<open>expected_correct_guesses\<close>, for one stored pair.\<close>

definition guess_step :: "int \<Rightarrow> int \<Rightarrow> error + real \<Rightarrow> error + real" where
  "guess_step tot c acc =
     (case acc of
        Inl e \<Rightarrow> Inl e
      | Inr g \<Rightarrow>
          if tot = 0 then Inl ZeroDivisionError
          else (let prob = real_of_int c / (1 * real_of_int tot)
                in Inr (g + prob * prob)))"

definition expected_correct_guesses :: "('a, 'v) node \<Rightarrow> error + real" where
  "expected_correct_guesses n =
     fold (\<lambda>(a, vs) acc. fold (\<lambda>(v, c) acc'. guess_step (count n) c acc') vs acc)
          (av_counts n) (Inr 0)"

text \<open>The accumulation step of \<^verbatim>\<open>category_utility\<close>, for one child.\<close>

definition utility_step ::
  "('a, 'v) node \<Rightarrow> ('a, 'v) node \<Rightarrow> error + real \<Rightarrow> error + real" where
  "utility_step n child acc =
     (case acc of
        Inl e \<Rightarrow> Inl e
      | Inr cu \<Rightarrow>
          if count n = 0 then Inl ZeroDivisionError
          else (let p_of_child = real_of_int (count child) / (1 * real_of_int (count n))
                in case expected_correct_guesses child of
                     Inl e \<Rightarrow> Inl e
                   | Inr gc \<Rightarrow>
                       (case expected_correct_guesses n of
                          Inl e \<Rightarrow> Inl e
                        | Inr gs \<Rightarrow> Inr (cu + p_of_child * (gc - gs)))))"

definition category_utility :: "('a, 'v) node \<Rightarrow> error + real" where
  "category_utility n =
     (if length (children n) = 0 then Inr 0
      else case fold (utility_step n) (children n) (Inr 0) of
             Inl e \<Rightarrow> Inl e
           | Inr cu \<Rightarrow> Inr (cu / (1 * real (length (children n)))))"

subsection \<open>Copies and structural edits\<close>

text \<open>Setting the children of a node, as \<^verbatim>\<open>temp.children.append(...)\<close> does one by one.\<close>

definition with_children :: "('a, 'v) node \<Rightarrow> ('a, 'v) node list \<Rightarrow> ('a, 'v) node" where
  "with_children n cs = Node (count n) (av_counts n) cs"

text \<open>
  \<^verbatim>\<open>Cobweb(otherTree)\<close>, the copy constructor: the counts of the other node, and a copy
  of each of its children. A node object is always true in Python, so the test
  \<^verbatim>\<open>if otherTree\<close> only asks whether the argument was given.
\<close>

fun copy_node :: "('a, 'v) node \<Rightarrow> ('a, 'v) node" where
  "copy_node (Node c av cs) =
     with_children (update_counts_from_node new_node (Node c av cs)) (map copy_node cs)"

definition shallow_copy :: "('a, 'v) node \<Rightarrow> ('a, 'v) node" where
  "shallow_copy n =
     with_children (update_counts_from_node new_node n)
       (map (\<lambda>child. update_counts_from_node new_node child) (children n))"

text \<open>\<^verbatim>\<open>create_new_child\<close>: the new child is the last child of the result.\<close>

definition create_new_child :: "('a, 'v) node \<Rightarrow> ('a, 'v) inst \<Rightarrow> ('a, 'v) node" where
  "create_new_child n inst =
     with_children n (children n @ [increment_counts new_node inst])"

text \<open>
  \<^verbatim>\<open>create_child_with_current_counts\<close>: guarded by \<^verbatim>\<open>if self.count > 0\<close>; without
  the guard's condition nothing is created.
\<close>

definition create_child_with_current_counts :: "('a, 'v) node \<Rightarrow> ('a, 'v) node" where
  "create_child_with_current_counts n =
     (if count n > 0 then with_children n (children n @ [copy_node n]) else n)"

text \<open>\<^verbatim>\<open>children.remove(c)\<close> for the child at position \<open>i\<close>.\<close>

definition remove_child :: "nat \<Rightarrow> 'x list \<Rightarrow> 'x list" where
  "remove_child i cs = take i cs @ drop (Suc i) cs"

text \<open>The node that \<^verbatim>\<open>merge\<close> builds over two children.\<close>

definition merged_child :: "('a, 'v) node \<Rightarrow> ('a, 'v) node \<Rightarrow> ('a, 'v) node" where
  "merged_child best1 best2 =
     with_children
       (update_counts_from_node (update_counts_from_node new_node best1) best2)
       [best1, best2]"

text \<open>
  \<^verbatim>\<open>merge(best1, best2)\<close> for the children at positions \<open>i\<close> and \<open>j\<close>. The second
  \<^verbatim>\<open>remove\<close> raises \<^verbatim>\<open>ValueError\<close> when both arguments are the same child. The
  merged node is the last child of the result.
\<close>

definition merge :: "('a, 'v) node \<Rightarrow> nat \<Rightarrow> nat \<Rightarrow> error + ('a, 'v) node" where
  "merge n i j =
     (if i < length (children n) \<and> j < length (children n) \<and> i \<noteq> j then
        (let new_child = merged_child (children n ! i) (children n ! j);
             cs1 = remove_child i (children n);
             cs2 = remove_child (if i < j then j - 1 else j) cs1
         in Inr (with_children n (cs2 @ [new_child])))
      else Inl ValueError)"

text \<open>\<^verbatim>\<open>split(best)\<close> for the child at position \<open>i\<close>.\<close>

definition split :: "('a, 'v) node \<Rightarrow> nat \<Rightarrow> error + ('a, 'v) node" where
  "split n i =
     (if i < length (children n) then
        Inr (with_children n (remove_child i (children n) @ children (children n ! i)))
      else Inl ValueError)"

subsection \<open>Hypothetical edits\<close>

definition cu_for_insert :: "('a, 'v) node \<Rightarrow> nat \<Rightarrow> ('a, 'v) inst \<Rightarrow> error + real" where
  "cu_for_insert n child inst =
     (let temp = increment_counts (update_counts_from_node new_node n) inst;
          temp_children =
            map (\<lambda>(k, c).
                   let temp_child = update_counts_from_node new_node c
                   in if k = child then increment_counts temp_child inst else temp_child)
                (enumerate 0 (children n))
      in category_utility (with_children temp temp_children))"

definition cu_for_new_child :: "('a, 'v) node \<Rightarrow> ('a, 'v) inst \<Rightarrow> error + real" where
  "cu_for_new_child n inst =
     category_utility (create_new_child (increment_counts (shallow_copy n) inst) inst)"

definition cu_for_merge ::
  "('a, 'v) node \<Rightarrow> nat \<Rightarrow> nat \<Rightarrow> ('a, 'v) inst \<Rightarrow> error + real" where
  "cu_for_merge n best1 best2 inst =
     (let temp = increment_counts (update_counts_from_node new_node n) inst;
          new_child =
            increment_counts
              (update_counts_from_node
                 (update_counts_from_node new_node (children n ! best1))
                 (children n ! best2))
              inst;
          others = filter (\<lambda>(k, c). \<not> (k = best1 \<or> k = best2)) (enumerate 0 (children n))
      in category_utility
           (with_children temp
              (new_child # map (\<lambda>(k, c). update_counts_from_node new_node c) others)))"

definition cu_for_split :: "('a, 'v) node \<Rightarrow> nat \<Rightarrow> error + real" where
  "cu_for_split n best =
     (let temp = update_counts_from_node new_node n;
          kept = map snd (filter (\<lambda>(k, c). k \<noteq> best) (enumerate 0 (children n)))
                 @ children (children n ! best)
      in category_utility
           (with_children temp (map (\<lambda>c. update_counts_from_node new_node c) kept)))"

definition cu_for_fringe_split :: "('a, 'v) node \<Rightarrow> ('a, 'v) inst \<Rightarrow> error + real" where
  "cu_for_fringe_split n inst =
     (let temp = update_counts_from_node new_node n;
          temp1 = create_child_with_current_counts temp;
          temp2 = increment_counts temp1 inst
      in category_utility (create_new_child temp2 inst))"

subsection \<open>Choosing an operation\<close>

text \<open>A list comprehension whose elements may raise: the first error, or all the values.\<close>

primrec collect :: "(error + 'x) list \<Rightarrow> error + 'x list" where
  "collect [] = Inr []"
| "collect (r # rs) =
     (case r of
        Inl e \<Rightarrow> Inl e
      | Inr x \<Rightarrow> (case collect rs of Inl e \<Rightarrow> Inl e | Inr xs \<Rightarrow> Inr (x # xs)))"

text \<open>
  \<^verbatim>\<open>two_best_children\<close>: a pair (utility, position of the child), and a second one
  when there is more than one child. Python's \<^verbatim>\<open>sort(key=..., reverse=True)\<close> is
  stable: elements of equal key keep their order, which the stable insertion sort on the
  negated key does as well.
\<close>

definition two_best_children ::
  "('a, 'v) node \<Rightarrow> ('a, 'v) inst \<Rightarrow> error + ((real \<times> nat) \<times> (real \<times> nat) option)" where
  "two_best_children n inst =
     (if length (children n) = 0 then Inl NoChildren
      else case collect (map (\<lambda>(k, c). case cu_for_insert n k inst of
                                          Inl e \<Rightarrow> Inl e
                                        | Inr cu \<Rightarrow> Inr (cu, k))
                             (enumerate 0 (children n))) of
             Inl e \<Rightarrow> Inl e
           | Inr children_cu \<Rightarrow>
               (case sort_key (\<lambda>x. - fst x) children_cu of
                  [] \<Rightarrow> Inl IndexError
                | [b1] \<Rightarrow> Inr (b1, None)
                | b1 # b2 # rest \<Rightarrow> Inr (b1, Some b2)))"

definition default_ops :: "string list" where
  "default_ops = [''best'', ''new'', ''merge'', ''split'']"

text \<open>Appending one candidate when its condition holds; its utility may raise.\<close>

definition add_op ::
  "bool \<Rightarrow> error + real \<Rightarrow> string \<Rightarrow> (real \<times> string) list \<Rightarrow> error + (real \<times> string) list" where
  "add_op cond cu name operations =
     (if cond then (case cu of Inl e \<Rightarrow> Inl e | Inr u \<Rightarrow> Inr (operations @ [(u, name)]))
      else Inr operations)"

text \<open>
  The list \<^verbatim>\<open>operations\<close> that \<^verbatim>\<open>get_best_operation\<close> builds: the candidates, as
  pairs (utility, name), in the order of the four tests of the source.
\<close>

definition candidate_operations ::
  "('a, 'v) node \<Rightarrow> ('a, 'v) inst \<Rightarrow> real \<times> nat \<Rightarrow> (real \<times> nat) option \<Rightarrow> string list
     \<Rightarrow> error + (real \<times> string) list" where
  "candidate_operations n inst best1 best2 possible_ops =
     (case add_op (''best'' \<in> set possible_ops) (Inr (fst best1)) ''best'' [] of
        Inl e \<Rightarrow> Inl e
      | Inr ops1 \<Rightarrow>
     (case add_op (''new'' \<in> set possible_ops) (cu_for_new_child n inst) ''new'' ops1 of
        Inl e \<Rightarrow> Inl e
      | Inr ops2 \<Rightarrow>
     (case add_op (''merge'' \<in> set possible_ops \<and> length (children n) > 2 \<and> best2 \<noteq> None)
             (case best2 of
                None \<Rightarrow> Inl AttributeError
              | Some b2 \<Rightarrow> cu_for_merge n (snd best1) (snd b2) inst)
             ''merge'' ops2 of
        Inl e \<Rightarrow> Inl e
      | Inr ops3 \<Rightarrow>
          add_op (''split'' \<in> set possible_ops
                    \<and> length (children (children n ! snd best1)) > 0)
             (cu_for_split n (snd best1)) ''split'' ops3)))"

text \<open>
  \<^verbatim>\<open>get_best_operation\<close>: \<^verbatim>\<open>operations.sort(reverse=True)\<close> orders the pairs
  themselves, by utility and then by name, greatest first, and the first one is
  returned.
\<close>

definition get_best_operation ::
  "('a, 'v) node \<Rightarrow> ('a, 'v) inst \<Rightarrow> real \<times> nat \<Rightarrow> (real \<times> nat) option \<Rightarrow> string list
     \<Rightarrow> error + (real \<times> string)" where
  "get_best_operation n inst best1 best2 possible_ops =
     (case candidate_operations n inst best1 best2 possible_ops of
        Inl e \<Rightarrow> Inl e
      | Inr operations \<Rightarrow>
          (case rev (sort operations) of
             [] \<Rightarrow> Inl IndexError
           | best # rest \<Rightarrow> Inr best))"

definition get_probability :: "('a, 'v) node \<Rightarrow> 'a \<Rightarrow> 'v \<Rightarrow> error + real" where
  "get_probability n attr val =
     (case map_of (av_counts n) attr of
        None \<Rightarrow> Inr 0
      | Some vs \<Rightarrow>
          (case map_of vs val of
             None \<Rightarrow> Inr 0
           | Some c \<Rightarrow>
               if count n = 0 then Inl ZeroDivisionError
               else Inr ((1 * real_of_int c) / real_of_int (count n))))"

subsection \<open>The formulas of the specification\<close>

text \<open>The stored attribute/value pairs of a node, with their counts.\<close>

definition stored_counts :: "('a, 'v) node \<Rightarrow> int list" where
  "stored_counts n = concat (map (\<lambda>(a, vs). map snd vs) (av_counts n))"

text \<open>The sum over all stored pairs of (count / total) squared.\<close>

definition spec_expected_correct_guesses :: "('a, 'v) node \<Rightarrow> real" where
  "spec_expected_correct_guesses n =
     (\<Sum>c\<leftarrow>stored_counts n. (real_of_int c / real_of_int (count n))\<^sup>2)"

text \<open>(1/k) times the sum over the k children of P(child) times the gain in guesses.\<close>

definition spec_category_utility :: "('a, 'v) node \<Rightarrow> real" where
  "spec_category_utility n =
     (1 / real (length (children n))) *
     (\<Sum>c\<leftarrow>children n. (real_of_int (count c) / real_of_int (count n)) *
         (spec_expected_correct_guesses c - spec_expected_correct_guesses n))"

text \<open>Where the quotients of \<^verbatim>\<open>expected_correct_guesses\<close> are defined.\<close>

definition guesses_defined :: "('a, 'v) node \<Rightarrow> bool" where
  "guesses_defined n = (count n \<noteq> 0 \<or> stored_counts n = [])"

section \<open>The driver\<close>

text \<open>
  \<^verbatim>\<open>cobweb\<close> walks down from the node it is called on. The loop
  \<^verbatim>\<open>while current\<close> is a recursion on the node \<open>current\<close>: the result is that node
  after the call, with the path from it to the node the source returns. The threshold
  \<^verbatim>\<open>min_cu\<close> is a class variable of the source, of value \<^verbatim>\<open>0.0\<close>; it is a
  parameter here. Values of an instance are plain tokens, never nodes, so the loop
  that redirects values equal to \<^verbatim>\<open>current\<close> changes nothing. The parameter
  \<^verbatim>\<open>cutoff\<close> is never read.
\<close>

fun nsize :: "('a, 'v) node \<Rightarrow> nat" where
  "nsize (Node c av cs) = Suc (sum_list (map nsize cs))"

function cobweb ::
  "real \<Rightarrow> ('a, 'v) node \<Rightarrow> ('a, 'v) inst \<Rightarrow> error + (('a, 'v) node \<times> nat list)" where
  "cobweb min_cu current inst =
     (if children current = [] then
        (case cu_for_fringe_split current inst of
           Inl e \<Rightarrow> Inl e
         | Inr cu \<Rightarrow>
             if cu \<le> min_cu then Inr (increment_counts current inst, [])
             else (let current1 = create_child_with_current_counts current;
                       current2 = increment_counts current1 inst;
                       current3 = create_new_child current2 inst
                   in Inr (current3, [length (children current3) - 1])))
      else
        (case two_best_children current inst of
           Inl e \<Rightarrow> Inl e
         | Inr (best1, best2) \<Rightarrow>
        (case get_best_operation current inst best1 best2 default_ops of
           Inl e \<Rightarrow> Inl e
         | Inr (action_cu, best_action) \<Rightarrow>
             if action_cu \<le> min_cu then
               Inr (with_children (increment_counts current inst) [], [])
             else if best_action = ''best'' then
               (case cobweb min_cu (children current ! snd best1) inst of
                  Inl e \<Rightarrow> Inl e
                | Inr (best1', path) \<Rightarrow>
                    Inr (with_children (increment_counts current inst)
                           ((children current)[snd best1 := best1']),
                         snd best1 # path))
             else if best_action = ''new'' then
               (let current1 = create_new_child (increment_counts current inst) inst
                in Inr (current1, [length (children current1) - 1]))
             else if best_action = ''merge'' then
               (case best2 of
                  None \<Rightarrow> Inl AttributeError
                | Some b2 \<Rightarrow>
                    (case merge (increment_counts current inst) (snd best1) (snd b2) of
                       Inl e \<Rightarrow> Inl e
                     | Inr current1 \<Rightarrow>
                         (case cobweb min_cu (last (children current1)) inst of
                            Inl e \<Rightarrow> Inl e
                          | Inr (new_child', path) \<Rightarrow>
                              Inr (with_children current1
                                     (butlast (children current1) @ [new_child']),
                                   (length (children current1) - 1) # path))))
             else if best_action = ''split'' then
               (case split current (snd best1) of
                  Inl e \<Rightarrow> Inl e
                | Inr current1 \<Rightarrow> cobweb min_cu current1 inst)
             else Inl ShouldNeverGetHere)))"
  by pat_completeness auto

lemma nsize_nth_less: "i < length (children n) \<Longrightarrow> nsize (children n ! i) < nsize n"
proof (cases n)
  case (Node c av cs)
  assume "i < length (children n)"
  with Node have "children n ! i \<in> set cs" by simp
  then have "nsize (children n ! i) \<le> sum_list (map nsize cs)"
    by (simp add: member_le_sum_list)
  with Node show ?thesis by simp
qed

lemma collect_Inr_positions:
  "collect (map (\<lambda>(k, c). case g k of Inl e \<Rightarrow> Inl e | Inr cu \<Rightarrow> Inr (cu, k)) ps) = Inr xs
   \<Longrightarrow> map snd xs = map fst ps"
proof (induction ps arbitrary: xs)
  case Nil
  then show ?case by simp
next
  case (Cons p ps)
  then show ?case
    by (cases p) (auto split: sum.splits)
qed

lemma distinct_map_insort_key:
  "distinct (map g (insort_key f x ys)) = (g x \<notin> g ` set ys \<and> distinct (map g ys))"
  by (induction ys) (auto simp: set_insort_key)

lemma distinct_map_sort_key: "distinct (map g (sort_key f xs)) = distinct (map g xs)"
  by (induction xs) (simp_all add: distinct_map_insort_key)

lemma two_best_children_positions:
  assumes "two_best_children n inst = Inr (b1, b2)"
  shows "snd b1 < length (children n)"
    and "b2 = Some x2 \<Longrightarrow> snd x2 < length (children n) \<and> snd x2 \<noteq> snd b1"
proof -
  from assms obtain children_cu where
    coll: "collect (map (\<lambda>(k, c). case cu_for_insert n k inst of
                                          Inl e \<Rightarrow> Inl e
                                        | Inr cu \<Rightarrow> Inr (cu, k))
                             (enumerate 0 (children n))) = Inr children_cu"
    and srt: "(case sort_key (\<lambda>x. - fst x) children_cu of
                  [] \<Rightarrow> Inl IndexError
                | [b1] \<Rightarrow> Inr (b1, None)
                | b1 # b2 # rest \<Rightarrow> Inr (b1, Some b2)) = Inr (b1, b2)"
    by (auto simp: two_best_children_def split: if_splits sum.splits)
  have pos: "map snd children_cu = [0..<length (children n)]"
    using collect_Inr_positions [OF coll] by (simp add: map_fst_enumerate)
  define sorted_cu where "sorted_cu = sort_key (\<lambda>x. - fst x) children_cu"
  have set_eq: "snd ` set sorted_cu = {0..<length (children n)}"
    using pos unfolding sorted_cu_def
    by (metis atLeastLessThan_upt set_map set_sort)
  have dist: "distinct (map snd sorted_cu)"
    unfolding sorted_cu_def by (simp add: distinct_map_sort_key pos)
  from srt have b1: "b1 \<in> set sorted_cu"
    unfolding sorted_cu_def [symmetric] by (auto split: list.splits)
  with set_eq show "snd b1 < length (children n)" by auto
  assume "b2 = Some x2"
  with srt obtain rest where "sorted_cu = b1 # x2 # rest"
    unfolding sorted_cu_def [symmetric] by (auto split: list.splits)
  with set_eq dist show "snd x2 < length (children n) \<and> snd x2 \<noteq> snd b1"
    by (auto simp: image_iff)
qed

lemma add_op_member:
  "add_op c r name ops = Inr ops' \<Longrightarrow> (u, nm) \<in> set ops' \<Longrightarrow>
     (u, nm) \<in> set ops \<or> (c \<and> nm = name \<and> r = Inr u)"
  by (auto simp: add_op_def split: if_splits sum.splits)

lemma candidate_operations_member:
  assumes "candidate_operations n inst best1 best2 possible_ops = Inr operations"
    and m: "(u, nm) \<in> set operations"
  shows "(nm = ''best'' \<and> ''best'' \<in> set possible_ops \<and> u = fst best1)
       \<or> (nm = ''new'' \<and> ''new'' \<in> set possible_ops \<and> cu_for_new_child n inst = Inr u)
       \<or> (nm = ''merge'' \<and> ''merge'' \<in> set possible_ops \<and> 2 < length (children n)
            \<and> (\<exists>b2. best2 = Some b2 \<and> cu_for_merge n (snd best1) (snd b2) inst = Inr u))
       \<or> (nm = ''split'' \<and> ''split'' \<in> set possible_ops
            \<and> 0 < length (children (children n ! snd best1))
            \<and> cu_for_split n (snd best1) = Inr u)"
proof -
  from assms(1) obtain ops1 ops2 ops3 where
    o1: "add_op (''best'' \<in> set possible_ops) (Inr (fst best1)) ''best'' [] = Inr ops1"
    and o2: "add_op (''new'' \<in> set possible_ops) (cu_for_new_child n inst) ''new'' ops1 = Inr ops2"
    and o3: "add_op (''merge'' \<in> set possible_ops \<and> length (children n) > 2 \<and> best2 \<noteq> None)
             (case best2 of
                None \<Rightarrow> Inl AttributeError
              | Some b2 \<Rightarrow> cu_for_merge n (snd best1) (snd b2) inst)
             ''merge'' ops2 = Inr ops3"
    and o4: "add_op (''split'' \<in> set possible_ops
                    \<and> length (children (children n ! snd best1)) > 0)
             (cu_for_split n (snd best1)) ''split'' ops3 = Inr operations"
    unfolding candidate_operations_def by (auto split: sum.splits)
  show ?thesis
  proof (cases "(u, nm) \<in> set ops3")
    case False
    with add_op_member [OF o4 m] show ?thesis by simp
  next
    case m3: True
    show ?thesis
    proof (cases "(u, nm) \<in> set ops2")
      case False
      with add_op_member [OF o3 m3] show ?thesis
        by (cases best2) auto
    next
      case m2: True
      show ?thesis
      proof (cases "(u, nm) \<in> set ops1")
        case False
        with add_op_member [OF o2 m2] show ?thesis by simp
      next
        case True
        with add_op_member [OF o1 True] show ?thesis by simp
      qed
    qed
  qed
qed

lemma get_best_operation_chosen:
  assumes "get_best_operation n inst best1 best2 possible_ops = Inr best"
  shows "\<exists>operations. candidate_operations n inst best1 best2 possible_ops = Inr operations
           \<and> best \<in> set operations \<and> (\<forall>x\<in>set operations. x \<le> best)"
proof -
  from assms obtain operations where
    c: "candidate_operations n inst best1 best2 possible_ops = Inr operations"
    and hd: "(case rev (sort operations) of
             [] \<Rightarrow> Inl IndexError
           | best # rest \<Rightarrow> Inr best) = Inr best"
    unfolding get_best_operation_def by (auto split: sum.splits)
  define ranked where "ranked = rev (sort operations)"
  from hd obtain rest where r: "ranked = best # rest"
    unfolding ranked_def [symmetric] by (cases ranked) auto
  then have "sort operations = rev rest @ [best]"
    unfolding ranked_def by (metis rev.simps(2) rev_rev_ident)
  moreover have "sorted (sort operations)" by simp
  ultimately have "sorted (rev rest @ [best])" by simp
  then have "\<forall>x\<in>set (rev rest). x \<le> best"
    by (simp add: sorted_append)
  moreover have "set operations = set ranked" by (simp add: ranked_def)
  ultimately have "\<forall>x\<in>set operations. x \<le> best"
    using r by auto
  moreover have "best \<in> set operations"
    using r \<open>set operations = set ranked\<close> by simp
  ultimately show ?thesis using c by blast
qed

lemma get_best_operation_member:
  assumes "get_best_operation n inst best1 best2 possible_ops = Inr (u, nm)"
  shows "(nm = ''best'' \<and> ''best'' \<in> set possible_ops \<and> u = fst best1)
       \<or> (nm = ''new'' \<and> ''new'' \<in> set possible_ops \<and> cu_for_new_child n inst = Inr u)
       \<or> (nm = ''merge'' \<and> ''merge'' \<in> set possible_ops \<and> 2 < length (children n)
            \<and> (\<exists>b2. best2 = Some b2 \<and> cu_for_merge n (snd best1) (snd b2) inst = Inr u))
       \<or> (nm = ''split'' \<and> ''split'' \<in> set possible_ops
            \<and> 0 < length (children (children n ! snd best1))
            \<and> cu_for_split n (snd best1) = Inr u)"
proof -
  from get_best_operation_chosen [OF assms] obtain operations where
    "candidate_operations n inst best1 best2 possible_ops = Inr operations"
    and "(u, nm) \<in> set operations"
    by blast
  then show ?thesis by (rule candidate_operations_member)
qed

lemma nsize_remove_child:
  "i < length cs \<Longrightarrow>
   sum_list (map nsize (remove_child i cs)) + nsize (cs ! i) = sum_list (map nsize cs)"
proof -
  assume "i < length cs"
  then have "cs = take i cs @ (cs ! i) # drop (Suc i) cs"
    by (simp add: id_take_nth_drop)
  then have "sum_list (map nsize cs) =
      sum_list (map nsize (take i cs @ (cs ! i) # drop (Suc i) cs))"
    by simp
  then show ?thesis by (simp add: remove_child_def)
qed

lemma nsize_children: "nsize n = Suc (sum_list (map nsize (children n)))"
  by (cases n) simp

lemma nsize_ge1: "0 < nsize n"
  by (cases n) simp

lemma length_remove_child: "i < length cs \<Longrightarrow> length (remove_child i cs) = length cs - 1"
  by (simp add: remove_child_def)

lemma nth_remove_child:
  "k < length cs - 1 \<Longrightarrow> remove_child i cs ! k = (if k < i then cs ! k else cs ! Suc k)"
  by (auto simp: remove_child_def nth_append min_def)

lemma split_nsize:
  assumes "split n i = Inr n'"
  shows "nsize n' < nsize n"
proof -
  from assms have i: "i < length (children n)"
    and n': "n' = with_children n (remove_child i (children n) @ children (children n ! i))"
    by (auto simp: split_def split: if_splits)
  have "nsize n' = Suc (sum_list (map nsize (remove_child i (children n)))
      + sum_list (map nsize (children (children n ! i))))"
    by (simp add: n' with_children_def)
  also have "\<dots> = sum_list (map nsize (remove_child i (children n))) + nsize (children n ! i)"
    by (simp add: nsize_children [of "children n ! i"])
  also have "\<dots> = sum_list (map nsize (children n))"
    by (rule nsize_remove_child [OF i])
  finally show ?thesis by (simp add: nsize_children [of n])
qed

lemma merge_nsize:
  assumes "merge n i j = Inr n'" and "2 < length (children n)"
  shows "nsize (last (children n')) < nsize n"
proof -
  let ?cs = "children n"
  let ?j' = "if i < j then j - 1 else j"
  from assms have i: "i < length ?cs" and j: "j < length ?cs" and ij: "i \<noteq> j"
    and l: "last (children n') = merged_child (?cs ! i) (?cs ! j)"
    by (auto simp: merge_def Let_def with_children_def split: if_splits)
  have j': "?j' < length (remove_child i ?cs)"
    using i j ij by (auto simp: length_remove_child)
  have nth: "remove_child i ?cs ! ?j' = ?cs ! j"
    using i j ij by (auto simp: nth_remove_child)
  let ?rest = "remove_child ?j' (remove_child i ?cs)"
  have "length ?rest = length ?cs - 2"
    using i j' by (simp add: length_remove_child)
  with assms(2) have "?rest \<noteq> []" by auto
  then obtain r rs where "?rest = r # rs" by (cases ?rest) auto
  then have pos: "0 < sum_list (map nsize ?rest)"
    using nsize_ge1 [of r] by simp
  have "sum_list (map nsize ?rest) + nsize (?cs ! j) + nsize (?cs ! i)
      = sum_list (map nsize ?cs)"
    using nsize_remove_child [OF j'] nsize_remove_child [OF i] nth by simp
  with pos have "nsize (?cs ! i) + nsize (?cs ! j) < sum_list (map nsize ?cs)"
    by linarith
  moreover have "nsize (merged_child (?cs ! i) (?cs ! j)) = Suc (nsize (?cs ! i) + nsize (?cs ! j))"
    by (simp add: merged_child_def with_children_def)
  ultimately show ?thesis
    by (simp add: l nsize_children [of n])
qed

lemma children_increment_counts [simp]: "children (increment_counts n inst) = children n"
  by (simp add: increment_counts_def)

lemma nsize_increment_counts [simp]: "nsize (increment_counts n inst) = nsize n"
  by (simp add: increment_counts_def nsize_children [of n])

termination cobweb
proof (relation "measure (\<lambda>(m, n, i). nsize n)", goal_cases)
  case 1
  show ?case by simp
next
  case (2 min_cu current inst b x y ba xa ya)
  then have "two_best_children current inst = Inr (x, y)" by simp
  from two_best_children_positions(1) [OF this] show ?case
    by (simp add: nsize_nth_less)
next
  case (3 min_cu current inst b x y ba xa ya x2 bb)
  then have "get_best_operation current inst x y default_ops = Inr (xa, ''merge'')"
    by simp
  from get_best_operation_member [OF this]
  have "2 < length (children (increment_counts current inst))" by simp
  from merge_nsize [OF 3(11) this] show ?case by simp
next
  case (4 min_cu current inst b x y ba xa ya bb)
  from split_nsize [OF 4(11)] show ?case by simp
qed


text \<open>
  \<^verbatim>\<open>cobweb_categorize\<close>: the path from the node it is called on to the node it
  returns.
\<close>

function cobweb_categorize :: "('a, 'v) node \<Rightarrow> ('a, 'v) inst \<Rightarrow> error + nat list" where
  "cobweb_categorize current inst =
     (if children current = [] then Inr []
      else
        (case two_best_children current inst of
           Inl e \<Rightarrow> Inl e
         | Inr (best1, best2) \<Rightarrow>
             (case cobweb_categorize (children current ! snd best1) inst of
                Inl e \<Rightarrow> Inl e
              | Inr path \<Rightarrow> Inr (snd best1 # path))))"
  by pat_completeness auto

termination cobweb_categorize
proof (relation "measure (\<lambda>(n, i). nsize n)", goal_cases)
  case 1
  show ?case by simp
next
  case (2 current inst b x y)
  then have "two_best_children current inst = Inr (x, y)" by simp
  from two_best_children_positions(1) [OF this] show ?case
    by (simp add: nsize_nth_less)
qed

text \<open>The node of a tree at the end of a path of child positions.\<close>

fun node_at :: "('a, 'v) node \<Rightarrow> nat list \<Rightarrow> ('a, 'v) node option" where
  "node_at n [] = Some n"
| "node_at n (i # path) =
     (if i < length (children n) then node_at (children n ! i) path else None)"

text \<open>\<^verbatim>\<open>ifit\<close>: the tree after the call, and the path to the returned node.\<close>

definition ifit ::
  "real \<Rightarrow> ('a, 'v) node \<Rightarrow> ('a, 'v) inst \<Rightarrow> error + (('a, 'v) node \<times> nat list)" where
  "ifit min_cu tree inst = cobweb min_cu tree inst"

text \<open>\<^verbatim>\<open>fit\<close>: \<^verbatim>\<open>ifit\<close> on each instance in turn; the tree after the last one.\<close>

fun fit :: "real \<Rightarrow> ('a, 'v) node \<Rightarrow> ('a, 'v) inst list \<Rightarrow> error + ('a, 'v) node" where
  "fit min_cu tree [] = Inr tree"
| "fit min_cu tree (inst # insts) =
     (case ifit min_cu tree inst of
        Inl e \<Rightarrow> Inl e
      | Inr (tree', leaf) \<Rightarrow> fit min_cu tree' insts)"

declare cobweb.simps [simp del] cobweb_categorize.simps [simp del]

section \<open>Statistics and utility\<close>

lemma guess_step_Inl: "guess_step t c (Inl e) = Inl e"
  by (simp add: guess_step_def)

lemma guess_step_Inr:
  "guess_step t c (Inr g) =
     (if t = 0 then Inl ZeroDivisionError else Inr (g + (real_of_int c / real_of_int t)\<^sup>2))"
  by (simp add: guess_step_def power2_eq_square)

lemma guess_inner_Inl: "fold (\<lambda>(v, c) acc. guess_step t c acc) vs (Inl e) = Inl e"
  by (induction vs) (auto simp: guess_step_Inl)

lemma guess_inner_zero:
  "fold (\<lambda>(v, c) acc. guess_step 0 c acc) vs (Inr g) =
     (if vs = [] then Inr g else Inl ZeroDivisionError)"
  by (cases vs) (auto simp: guess_step_Inr guess_inner_Inl)

lemma guess_inner_sum:
  "t \<noteq> 0 \<Longrightarrow> fold (\<lambda>(v, c) acc. guess_step t c acc) vs (Inr g) =
     Inr (g + (\<Sum>c\<leftarrow>map snd vs. (real_of_int c / real_of_int t)\<^sup>2))"
  by (induction vs arbitrary: g) (auto simp: guess_step_Inr)

lemma guess_outer_Inl:
  "fold (\<lambda>(a, vs) acc. fold (\<lambda>(v, c) acc'. guess_step t c acc') vs acc) av (Inl e) = Inl e"
  by (induction av) (auto simp: guess_inner_Inl)

lemma guess_outer_sum:
  "t \<noteq> 0 \<Longrightarrow>
   fold (\<lambda>(a, vs) acc. fold (\<lambda>(v, c) acc'. guess_step t c acc') vs acc) av (Inr g) =
     Inr (g + (\<Sum>c\<leftarrow>concat (map (\<lambda>(a, vs). map snd vs) av). (real_of_int c / real_of_int t)\<^sup>2))"
  by (induction av arbitrary: g) (auto simp: guess_inner_sum)

lemma guess_outer_zero:
  "fold (\<lambda>(a, vs) acc. fold (\<lambda>(v, c) acc'. guess_step 0 c acc') vs acc) av (Inr g) =
     (if concat (map (\<lambda>(a, vs). map snd vs) av) = [] then Inr g else Inl ZeroDivisionError)"
proof (induction av arbitrary: g)
  case Nil
  then show ?case by simp
next
  case (Cons p av)
  obtain a vs where p: "p = (a, vs)" by (cases p)
  show ?case
    by (cases "vs = []") (simp_all add: p guess_inner_zero guess_outer_Inl Cons.IH)
qed

lemma expected_correct_guesses_eq:
  "expected_correct_guesses n =
     (if guesses_defined n then Inr (spec_expected_correct_guesses n)
      else Inl ZeroDivisionError)"
proof (cases "count n = 0")
  case True
  then show ?thesis
    by (simp add: expected_correct_guesses_def guesses_defined_def stored_counts_def
        spec_expected_correct_guesses_def guess_outer_zero)
next
  case False
  then show ?thesis
    by (simp add: expected_correct_guesses_def guesses_defined_def stored_counts_def
        spec_expected_correct_guesses_def guess_outer_sum)
qed

lemma utility_step_Inl: "utility_step n c (Inl e) = Inl e"
  by (simp add: utility_step_def)

lemma utility_step_Inr:
  "utility_step n c (Inr u) =
     (if count n \<noteq> 0 \<and> guesses_defined c
      then Inr (u + (real_of_int (count c) / real_of_int (count n)) *
             (spec_expected_correct_guesses c - spec_expected_correct_guesses n))
      else Inl ZeroDivisionError)"
  by (auto simp: utility_step_def expected_correct_guesses_eq guesses_defined_def)

lemma utility_fold_Inl: "fold (utility_step n) cs (Inl e) = Inl e"
  by (induction cs) (auto simp: utility_step_Inl)

lemma utility_fold_sum:
  "count n \<noteq> 0 \<Longrightarrow> \<forall>c\<in>set cs. guesses_defined c \<Longrightarrow>
   fold (utility_step n) cs (Inr u) =
     Inr (u + (\<Sum>c\<leftarrow>cs. (real_of_int (count c) / real_of_int (count n)) *
         (spec_expected_correct_guesses c - spec_expected_correct_guesses n)))"
  by (induction cs arbitrary: u) (auto simp: utility_step_Inr)

lemma utility_fold_undefined:
  "count n = 0 \<or> (\<exists>c\<in>set cs. \<not> guesses_defined c) \<Longrightarrow> cs \<noteq> [] \<Longrightarrow>
   fold (utility_step n) cs (Inr u) = Inl ZeroDivisionError"
proof (induction cs arbitrary: u)
  case Nil
  then show ?case by simp
next
  case (Cons c cs)
  show ?case
  proof (cases "count n \<noteq> 0 \<and> guesses_defined c")
    case False
    then have "utility_step n c (Inr u) = Inl ZeroDivisionError"
      by (simp only: utility_step_Inr if_False)
    then show ?thesis
      by (simp add: utility_fold_Inl)
  next
    case True
    with Cons.prems have ex: "count n = 0 \<or> (\<exists>c\<in>set cs. \<not> guesses_defined c)"
      and ne: "cs \<noteq> []"
      by auto
    from True Cons.IH [OF ex ne] show ?thesis
      by (simp add: utility_step_Inr)
  qed
qed

lemma category_utility_eq:
  "category_utility n =
     (if children n = [] then Inr 0
      else if count n \<noteq> 0 \<and> (\<forall>c\<in>set (children n). guesses_defined c)
           then Inr (spec_category_utility n)
           else Inl ZeroDivisionError)"
proof (cases "children n = []")
  case True
  then show ?thesis by (simp add: category_utility_def)
next
  case ne: False
  show ?thesis
  proof (cases "count n \<noteq> 0 \<and> (\<forall>c\<in>set (children n). guesses_defined c)")
    case True
    then show ?thesis
      using ne by (simp add: category_utility_def utility_fold_sum spec_category_utility_def)
  next
    case False
    then have "fold (utility_step n) (children n) (Inr 0) = Inl ZeroDivisionError"
      using ne by (intro utility_fold_undefined) auto
    then show ?thesis
      using ne False by (simp add: category_utility_def)
  qed
qed

text \<open>
  Claim C2. \<^verbatim>\<open>expected_correct_guesses\<close> returns the sum, over all stored
  attribute/value pairs, of the square of the pair's count divided by the count of the
  node. \<^verbatim>\<open>category_utility\<close> returns 0 for a node without children; for a node with
  \<open>k\<close> children it returns \<open>1/k\<close> times the sum over the children of
  \<open>count child / count node\<close> times the difference between the expected correct guesses
  of the child and those of the node. The only other outcome is the
  \<^verbatim>\<open>ZeroDivisionError\<close> of a quotient whose divisor, the count of a node, is zero.
\<close>

theorem utility_formulas:
  "expected_correct_guesses n =
     (if guesses_defined n then Inr (spec_expected_correct_guesses n)
      else Inl ZeroDivisionError)
   \<and> category_utility n =
     (if children n = [] then Inr 0
      else if count n \<noteq> 0 \<and> (\<forall>c\<in>set (children n). guesses_defined c)
           then Inr (spec_category_utility n)
           else Inl ZeroDivisionError)"
  using expected_correct_guesses_eq [of n] category_utility_eq [of n] by simp

theorem utility_formulas_witness:
  "expected_correct_guesses
     (Node 3 [(''color'', [(''red'', 2), (''blue'', 1)])]
        [Node 2 [(''color'', [(''red'', 2)])] [], Node 1 [(''color'', [(''blue'', 1)])] []])
     = Inr (5 / 9)
   \<and> category_utility
     (Node 3 [(''color'', [(''red'', 2), (''blue'', 1)])]
        [Node 2 [(''color'', [(''red'', 2)])] [], Node 1 [(''color'', [(''blue'', 1)])] []])
     = Inr (2 / 9)"
  using utility_formulas
    [of "Node 3 [(''color'', [(''red'', 2), (''blue'', 1)])]
        [Node 2 [(''color'', [(''red'', 2)])] [], Node 1 [(''color'', [(''blue'', 1)])] []]"]
  by (simp add: guesses_defined_def stored_counts_def spec_expected_correct_guesses_def
      spec_category_utility_def power2_eq_square)

section \<open>Choice of the operation\<close>

text \<open>
  Claim C3, as stated in the specification, fails: with two children of one red instance
  each and a red instance to place, inserting into the best child and creating a new
  child both have utility 0, and \<^verbatim>\<open>get_best_operation\<close> answers \<^verbatim>\<open>new\<close>, not
  \<^verbatim>\<open>best\<close>.
\<close>

theorem tie_not_best_counterexample:
  "two_best_children
     (Node 2 [(''color'', [(''red'', 2)])]
        [Node 1 [(''color'', [(''red'', 1)])] [], Node 1 [(''color'', [(''red'', 1)])] []])
     [(''color'', ''red'')] = Inr ((0, 0), Some (0, 1))
   \<and> candidate_operations
     (Node 2 [(''color'', [(''red'', 2)])]
        [Node 1 [(''color'', [(''red'', 1)])] [], Node 1 [(''color'', [(''red'', 1)])] []])
     [(''color'', ''red'')] (0, 0) (Some (0, 1)) default_ops
       = Inr [(0, ''best''), (0, ''new'')]
   \<and> get_best_operation
     (Node 2 [(''color'', [(''red'', 2)])]
        [Node 1 [(''color'', [(''red'', 1)])] [], Node 1 [(''color'', [(''red'', 1)])] []])
     [(''color'', ''red'')] (0, 0) (Some (0, 1)) default_ops
       = Inr (0, ''new'')"
  by code_simp

text \<open>
  Claim C3, amended. Whenever there is a candidate, \<^verbatim>\<open>get_best_operation\<close> returns
  one: a candidate of greatest utility, and, among the candidates of that utility, the
  one whose name comes last in the order of strings. The names are ordered
  \<^verbatim>\<open>best < merge < new < split\<close>, so a tie goes to \<^verbatim>\<open>split\<close> before
  \<^verbatim>\<open>new\<close> before \<^verbatim>\<open>merge\<close> before \<^verbatim>\<open>best\<close>.
\<close>

theorem get_best_operation_greatest:
  assumes "candidate_operations n inst best1 best2 possible_ops = Inr operations"
    and "operations \<noteq> []"
  shows "\<exists>u nm. get_best_operation n inst best1 best2 possible_ops = Inr (u, nm)
           \<and> (u, nm) \<in> set operations
           \<and> (\<forall>(u', nm')\<in>set operations. u' < u \<or> (u' = u \<and> nm' \<le> nm))
           \<and> ''best'' < ''merge'' \<and> ''merge'' < ''new'' \<and> ''new'' < ''split''"
proof -
  have "length (rev (sort operations)) = length operations" by simp
  with assms(2) have "rev (sort operations) \<noteq> []"
    by (metis length_0_conv)
  then obtain best rest where "rev (sort operations) = best # rest"
    by (cases "rev (sort operations)") auto
  with assms(1) have g: "get_best_operation n inst best1 best2 possible_ops = Inr best"
    by (simp add: get_best_operation_def)
  from get_best_operation_chosen [OF g] assms(1)
  have m: "best \<in> set operations" and le: "\<forall>x\<in>set operations. x \<le> best"
    by auto
  obtain u nm where b: "best = (u, nm)" by (cases best)
  have "\<forall>(u', nm')\<in>set operations. u' < u \<or> (u' = u \<and> nm' \<le> nm)"
    using le unfolding b by (auto simp: less_eq_prod_def)
  moreover have "''best'' < ''merge'' \<and> ''merge'' < ''new'' \<and> ''new'' < ''split''"
    by code_simp
  ultimately show ?thesis using g m b by blast
qed

theorem get_best_operation_greatest_witness:
  "\<exists>u nm. get_best_operation
       (Node 3 [(''a'', [(''1'', 2), (''0'', 1)]), (''b'', [(''1'', 1), (''0'', 1)])]
          [Node 1 [(''a'', [(''1'', 1)]), (''b'', [(''1'', 1)])] [],
           Node 1 [(''a'', [(''1'', 1)]), (''b'', [(''0'', 1)])] [],
           Node 1 [(''a'', [(''0'', 1)])] []])
       [(''a'', ''1'')] (5 / 24, 0) (Some (5 / 24, 1)) default_ops = Inr (u, nm)
     \<and> (u, nm) \<in> set [(5 / 24, ''best''), (3 / 16, ''new''), (5 / 24, ''merge'')]
     \<and> (\<forall>(u', nm')\<in>set [(5 / 24, ''best''), (3 / 16, ''new''), (5 / 24, ''merge'')].
           u' < u \<or> (u' = u \<and> nm' \<le> nm))
     \<and> ''best'' < ''merge'' \<and> ''merge'' < ''new'' \<and> ''new'' < ''split''"
proof -
  have c: "candidate_operations
       (Node 3 [(''a'', [(''1'', 2), (''0'', 1)]), (''b'', [(''1'', 1), (''0'', 1)])]
          [Node 1 [(''a'', [(''1'', 1)]), (''b'', [(''1'', 1)])] [],
           Node 1 [(''a'', [(''1'', 1)]), (''b'', [(''0'', 1)])] [],
           Node 1 [(''a'', [(''0'', 1)])] []])
       [(''a'', ''1'')] (5 / 24, 0) (Some (5 / 24, 1)) default_ops
     = Inr [(5 / 24, ''best''), (3 / 16, ''new''), (5 / 24, ''merge'')]"
    by code_simp
  have ne: "[(5 / 24 :: real, ''best''), (3 / 16, ''new''), (5 / 24, ''merge'')] \<noteq> []"
    by simp
  from get_best_operation_greatest [OF c ne] show ?thesis .
qed

section \<open>A scenario\<close>

text \<open>
  Claim C6. From a fresh tree, \<^verbatim>\<open>ifit\<close> with a red, a red and a blue instance gives a
  root of count 3 with two children, at which the probability of red is 2/3.
\<close>

theorem red_red_blue_scenario:
  "fit 0 new_node [[(''color'', ''red'')], [(''color'', ''red'')], [(''color'', ''blue'')]]
     = Inr (Node 3 [(''color'', [(''red'', 2), (''blue'', 1)])]
              [Node 2 [(''color'', [(''red'', 2)])] [],
               Node 1 [(''color'', [(''blue'', 1)])] []])
   \<and> count (Node 3 [(''color'', [(''red'', 2), (''blue'', 1)])]
              [Node 2 [(''color'', [(''red'', 2)])] [],
               Node 1 [(''color'', [(''blue'', 1)])] []]) = 3
   \<and> 2 \<le> length (children (Node 3 [(''color'', [(''red'', 2), (''blue'', 1)])]
              [Node 2 [(''color'', [(''red'', 2)])] [],
               Node 1 [(''color'', [(''blue'', 1)])] []]))
   \<and> get_probability (Node 3 [(''color'', [(''red'', 2), (''blue'', 1)])]
              [Node 2 [(''color'', [(''red'', 2)])] [],
               Node 1 [(''color'', [(''blue'', 1)])] []]) ''color'' ''red'' = Inr (2 / 3)"
  by code_simp

section \<open>Dictionaries as association lists\<close>

text \<open>
  The count stored for an attribute/value pair, 0 when nothing is stored, and the number
  of times an instance holds the pair. A dictionary has each key once.
\<close>

definition stored_in :: "('a, 'v) avc \<Rightarrow> 'a \<Rightarrow> 'v \<Rightarrow> int" where
  "stored_in av a v = dict_get (dict_get av a []) v 0"

definition stored :: "('a, 'v) node \<Rightarrow> 'a \<Rightarrow> 'v \<Rightarrow> int" where
  "stored n a v = stored_in (av_counts n) a v"

definition occurrences :: "('a, 'v) inst \<Rightarrow> 'a \<Rightarrow> 'v \<Rightarrow> int" where
  "occurrences inst a v = int (count_list inst (a, v))"

definition dict_ok :: "('a, 'v) avc \<Rightarrow> bool" where
  "dict_ok av = (distinct (map fst av) \<and> (\<forall>(a, vs)\<in>set av. distinct (map fst vs)))"

lemma stored_in_av_add:
  "stored_in (av_add a v k av) a' v' = stored_in av a' v' + (if a' = a \<and> v' = v then k else 0)"
  by (auto simp: stored_in_def av_add_def dict_get_def Let_def update_conv' split: option.splits)

lemma set_update_subset: "set (AList.update k v al) \<subseteq> insert (k, v) (set al)"
  by (induction al) auto

lemma dict_ok_av_add: "dict_ok av \<Longrightarrow> dict_ok (av_add a v k av)"
proof -
  assume ok: "dict_ok av"
  let ?inner = "dict_get av a []"
  have inner: "distinct (map fst ?inner)"
  proof (cases "map_of av a")
    case None
    then show ?thesis by (simp add: dict_get_def)
  next
    case (Some vs)
    then have "(a, vs) \<in> set av" by (rule map_of_SomeD)
    with ok Some show ?thesis by (auto simp: dict_ok_def dict_get_def)
  qed
  have "\<forall>(a', vs)\<in>set (av_add a v k av). distinct (map fst vs)"
  proof (clarify)
    fix a' vs assume "(a', vs) \<in> set (av_add a v k av)"
    then have "(a', vs) = (a, AList.update v (dict_get ?inner v 0 + k) ?inner) \<or> (a', vs) \<in> set av"
      using set_update_subset [of a "AList.update v (dict_get ?inner v 0 + k) ?inner" av]
      by (auto simp: av_add_def Let_def)
    then show "distinct (map fst vs)"
      using inner ok by (auto simp: distinct_update dict_ok_def)
  qed
  moreover have "distinct (map fst (av_add a v k av))"
    using ok by (simp add: av_add_def Let_def distinct_update dict_ok_def)
  ultimately show ?thesis by (simp add: dict_ok_def)
qed

lemma stored_in_fold_inst:
  "stored_in (fold (\<lambda>(a, v) av. av_add a v 1 av) inst av) a' v'
     = stored_in av a' v' + occurrences inst a' v'"
proof (induction inst arbitrary: av)
  case Nil
  then show ?case by (simp add: occurrences_def)
next
  case (Cons p inst)
  obtain a v where p: "p = (a, v)" by (cases p)
  have "stored_in (fold (\<lambda>(a, v) av. av_add a v 1 av) (p # inst) av) a' v'
      = stored_in (av_add a v 1 av) a' v' + occurrences inst a' v'"
    by (simp add: p Cons.IH)
  also have "\<dots> = stored_in av a' v' + (if a' = a \<and> v' = v then 1 else 0)
      + occurrences inst a' v'"
    by (simp only: stored_in_av_add)
  finally have step: "stored_in (fold (\<lambda>(a, v) av. av_add a v 1 av) (p # inst) av) a' v'
      = stored_in av a' v' + (if a' = a \<and> v' = v then 1 else 0) + occurrences inst a' v'" .
  have "(if a' = a \<and> v' = v then 1 else 0) + occurrences inst a' v'
      = occurrences (p # inst) a' v'"
    by (auto simp: p occurrences_def)
  with step show ?case by simp
qed

lemma dict_ok_fold_inst: "dict_ok av \<Longrightarrow> dict_ok (fold (\<lambda>(a, v) av. av_add a v 1 av) inst av)"
  by (induction inst arbitrary: av) (auto simp: dict_ok_av_add)

text \<open>The sum of the counts that the entries of a dictionary give to one pair.\<close>

definition inner_weight :: "('v \<times> int) list \<Rightarrow> 'v \<Rightarrow> int" where
  "inner_weight vs v' = (\<Sum>(v, c)\<leftarrow>vs. if v = v' then c else 0)"

definition weight :: "('a, 'v) avc \<Rightarrow> 'a \<Rightarrow> 'v \<Rightarrow> int" where
  "weight av a' v' = (\<Sum>(a, vs)\<leftarrow>av. if a = a' then inner_weight vs v' else 0)"

lemma stored_in_fold_inner:
  "stored_in (fold (\<lambda>(v, c) av'. av_add a v c av') vs av) a' v'
     = stored_in av a' v' + (if a = a' then inner_weight vs v' else 0)"
  by (induction vs arbitrary: av) (auto simp: stored_in_av_add inner_weight_def)

lemma stored_in_fold_outer:
  "stored_in (fold (\<lambda>(a, vs) av. fold (\<lambda>(v, c) av'. av_add a v c av') vs av) other av) a' v'
     = stored_in av a' v' + weight other a' v'"
  by (induction other arbitrary: av) (auto simp: stored_in_fold_inner weight_def)

lemma dict_ok_fold_inner:
  "dict_ok av \<Longrightarrow> dict_ok (fold (\<lambda>(v, c) av'. av_add a v c av') vs av)"
  by (induction vs arbitrary: av) (auto simp: dict_ok_av_add)

lemma dict_ok_fold_outer:
  "dict_ok av \<Longrightarrow>
   dict_ok (fold (\<lambda>(a, vs) av. fold (\<lambda>(v, c) av'. av_add a v c av') vs av) other av)"
  by (induction other arbitrary: av) (auto simp: dict_ok_fold_inner)

lemma inner_weight_absent: "v' \<notin> fst ` set vs \<Longrightarrow> inner_weight vs v' = 0"
  by (induction vs) (auto simp: inner_weight_def)

lemma inner_weight_lookup: "distinct (map fst vs) \<Longrightarrow> inner_weight vs v' = dict_get vs v' 0"
proof (induction vs)
  case Nil
  then show ?case by (simp add: inner_weight_def dict_get_def)
next
  case (Cons p vs)
  obtain v c where p: "p = (v, c)" by (cases p)
  show ?case
  proof (cases "v = v'")
    case True
    with Cons.prems p have "v' \<notin> fst ` set vs" by auto
    from inner_weight_absent [OF this] True p show ?thesis
      by (simp add: inner_weight_def dict_get_def)
  next
    case False
    with Cons p show ?thesis
      by (simp add: inner_weight_def dict_get_def)
  qed
qed

lemma weight_absent: "a' \<notin> fst ` set av \<Longrightarrow> weight av a' v' = 0"
  by (induction av) (auto simp: weight_def)

lemma weight_lookup: "dict_ok av \<Longrightarrow> weight av a' v' = stored_in av a' v'"
proof (induction av)
  case Nil
  then show ?case by (simp add: weight_def stored_in_def dict_get_def)
next
  case (Cons p av)
  obtain a vs where p: "p = (a, vs)" by (cases p)
  from Cons.prems p have ok: "dict_ok av" and dvs: "distinct (map fst vs)"
    and na: "a \<notin> fst ` set av"
    by (auto simp: dict_ok_def)
  show ?case
  proof (cases "a = a'")
    case True
    with na have "weight av a' v' = 0" by (simp add: weight_absent)
    then have "weight (p # av) a' v' = inner_weight vs v'"
      using True p by (simp add: weight_def)
    also have "\<dots> = dict_get vs v' 0" by (rule inner_weight_lookup [OF dvs])
    finally show ?thesis using True p by (simp add: stored_in_def dict_get_def)
  next
    case False
    then have "weight (p # av) a' v' = weight av a' v'"
      using p by (simp add: weight_def)
    with Cons.IH [OF ok] False p show ?thesis
      by (simp add: stored_in_def dict_get_def)
  qed
qed


subsection \<open>Statistics of the nodes that the operations build\<close>

lemma count_new_node [simp]: "count new_node = 0"
  and av_counts_new_node [simp]: "av_counts new_node = []"
  and children_new_node [simp]: "children new_node = []"
  by (simp_all add: new_node_def)

lemma stored_new_node [simp]: "stored new_node a v = 0"
  by (simp add: stored_def stored_in_def dict_get_def)

lemma dict_ok_Nil [simp]: "dict_ok []"
  by (simp add: dict_ok_def)

lemma count_with_children [simp]: "count (with_children n cs) = count n"
  and av_counts_with_children [simp]: "av_counts (with_children n cs) = av_counts n"
  and children_with_children [simp]: "children (with_children n cs) = cs"
  by (simp_all add: with_children_def)

lemma stored_with_children [simp]: "stored (with_children n cs) a v = stored n a v"
  by (simp add: stored_def)

lemma count_increment_counts [simp]: "count (increment_counts n inst) = count n + 1"
  by (simp add: increment_counts_def)

lemma stored_increment_counts:
  "stored (increment_counts n inst) a v = stored n a v + occurrences inst a v"
  by (simp add: stored_def increment_counts_def stored_in_fold_inst)

lemma dict_ok_increment_counts:
  "dict_ok (av_counts n) \<Longrightarrow> dict_ok (av_counts (increment_counts n inst))"
  by (simp add: increment_counts_def dict_ok_fold_inst)

lemma count_update_counts [simp]:
  "count (update_counts_from_node n other) = count n + count other"
  and children_update_counts [simp]:
  "children (update_counts_from_node n other) = children n"
  by (simp_all add: update_counts_from_node_def)

lemma stored_update_counts:
  "dict_ok (av_counts other) \<Longrightarrow>
   stored (update_counts_from_node n other) a v = stored n a v + stored other a v"
  by (simp add: stored_def update_counts_from_node_def stored_in_fold_outer weight_lookup)

lemma dict_ok_update_counts:
  "dict_ok (av_counts n) \<Longrightarrow> dict_ok (av_counts (update_counts_from_node n other))"
  by (simp add: update_counts_from_node_def dict_ok_fold_outer)

lemma count_copy_node [simp]: "count (copy_node n) = count n"
  by (cases n) simp

lemma children_copy_node: "children (copy_node n) = map copy_node (children n)"
  by (cases n) simp

lemma stored_copy_node:
  "dict_ok (av_counts n) \<Longrightarrow> stored (copy_node n) a v = stored n a v"
  by (cases n) (simp add: stored_update_counts)

lemma dict_ok_copy_node: "dict_ok (av_counts (copy_node n))"
  by (cases n) (simp add: dict_ok_update_counts)

subsection \<open>When the utilities are defined\<close>

lemma guesses_defined_count: "count n \<noteq> 0 \<Longrightarrow> guesses_defined n"
  by (simp add: guesses_defined_def)

lemma category_utility_defined:
  "count n \<noteq> 0 \<Longrightarrow> \<forall>c\<in>set (children n). count c \<noteq> 0 \<Longrightarrow>
   category_utility n = Inr (if children n = [] then 0 else spec_category_utility n)"
  by (simp add: category_utility_eq guesses_defined_count)

lemma cu_for_insert_defined:
  assumes "0 \<le> count n" and "\<forall>c\<in>set (children n). 0 < count c"
  shows "\<exists>u. cu_for_insert n k inst = Inr u"
proof -
  let ?temp = "increment_counts (update_counts_from_node new_node n) inst"
  let ?cs = "map (\<lambda>(k', c).
                   let temp_child = update_counts_from_node new_node c
                   in if k' = k then increment_counts temp_child inst else temp_child)
                (enumerate 0 (children n))"
  have "count (with_children ?temp ?cs) \<noteq> 0" using assms(1) by simp
  moreover have "\<forall>c\<in>set (children (with_children ?temp ?cs)). count c \<noteq> 0"
  proof
    fix c assume "c \<in> set (children (with_children ?temp ?cs))"
    then obtain k' c' where "(k', c') \<in> set (enumerate 0 (children n))"
      and c: "c = (let temp_child = update_counts_from_node new_node c'
                   in if k' = k then increment_counts temp_child inst else temp_child)"
      by auto
    then have "c' \<in> set (children n)" by (auto simp: in_set_enumerate_eq)
    with assms(2) have "0 < count c'" by simp
    with c show "count c \<noteq> 0" by (simp add: Let_def)
  qed
  ultimately have "\<exists>u. category_utility (with_children ?temp ?cs) = Inr u"
    using category_utility_defined by blast
  then show ?thesis
    unfolding cu_for_insert_def Let_def .
qed

lemma cu_for_new_child_defined:
  assumes "0 \<le> count n" and "\<forall>c\<in>set (children n). 0 < count c"
  shows "\<exists>u. cu_for_new_child n inst = Inr u"
proof -
  let ?t = "create_new_child (increment_counts (shallow_copy n) inst) inst"
  have "count ?t \<noteq> 0"
    using assms(1) by (simp add: create_new_child_def shallow_copy_def)
  moreover have "\<forall>c\<in>set (children ?t). count c \<noteq> 0"
    using assms(2) by (auto simp: create_new_child_def shallow_copy_def)
  ultimately have "\<exists>u. category_utility ?t = Inr u"
    using category_utility_defined by blast
  then show ?thesis
    unfolding cu_for_new_child_def .
qed

lemma cu_for_merge_defined:
  assumes "0 \<le> count n" and "\<forall>c\<in>set (children n). 0 < count c"
    and "i < length (children n)" and "j < length (children n)"
  shows "\<exists>u. cu_for_merge n i j inst = Inr u"
proof -
  let ?temp = "increment_counts (update_counts_from_node new_node n) inst"
  let ?new = "increment_counts
              (update_counts_from_node
                 (update_counts_from_node new_node (children n ! i))
                 (children n ! j))
              inst"
  let ?others = "filter (\<lambda>(k, c). \<not> (k = i \<or> k = j)) (enumerate 0 (children n))"
  let ?t = "with_children ?temp
              (?new # map (\<lambda>(k, c). update_counts_from_node new_node c) ?others)"
  from assms have "0 < count (children n ! i)" "0 < count (children n ! j)"
    by simp_all
  then have new: "count ?new \<noteq> 0" by simp
  have "count ?t \<noteq> 0" using assms(1) by simp
  moreover have "\<forall>c\<in>set (children ?t). count c \<noteq> 0"
  proof
    fix c assume "c \<in> set (children ?t)"
    then consider "c = ?new"
      | k c' where "(k, c') \<in> set (enumerate 0 (children n))"
          "c = update_counts_from_node new_node c'"
      by auto
    then show "count c \<noteq> 0"
    proof cases
      case 1
      with new show ?thesis by simp
    next
      case 2
      then have "c' \<in> set (children n)" by (auto simp: in_set_enumerate_eq)
      with assms(2) 2 show ?thesis by auto
    qed
  qed
  ultimately have "\<exists>u. category_utility ?t = Inr u"
    using category_utility_defined by blast
  then show ?thesis
    unfolding cu_for_merge_def Let_def .
qed

lemma cu_for_split_defined:
  assumes "0 < count n" and "\<forall>c\<in>set (children n). 0 < count c"
    and "\<forall>c\<in>set (children (children n ! i)). 0 < count c"
  shows "\<exists>u. cu_for_split n i = Inr u"
proof -
  define kept where "kept = map snd (filter (\<lambda>(k, c). k \<noteq> i) (enumerate 0 (children n)))
                 @ children (children n ! i)"
  define t where "t = with_children (update_counts_from_node new_node n)
              (map (\<lambda>c. update_counts_from_node new_node c) kept)"
  have kept: "\<forall>c\<in>set kept. 0 < count c"
  proof
    fix c assume "c \<in> set kept"
    then have "c \<in> set (children n) \<or> c \<in> set (children (children n ! i))"
      unfolding kept_def by (auto simp: in_set_enumerate_eq)
    with assms(2,3) show "0 < count c" by blast
  qed
  have "count t \<noteq> 0" using assms(1) by (simp add: t_def)
  moreover have "\<forall>c\<in>set (children t). count c \<noteq> 0"
    using kept by (auto simp: t_def)
  ultimately have "\<exists>u. category_utility t = Inr u"
    using category_utility_defined by blast
  then show ?thesis
    unfolding cu_for_split_def Let_def t_def kept_def .
qed

lemma cu_for_fringe_split_defined:
  assumes "0 \<le> count n"
  shows "\<exists>u. cu_for_fringe_split n inst = Inr u"
proof -
  let ?temp = "update_counts_from_node new_node n"
  let ?t = "create_new_child (increment_counts (create_child_with_current_counts ?temp) inst) inst"
  have "count ?t \<noteq> 0"
    using assms by (simp add: create_new_child_def create_child_with_current_counts_def)
  moreover have "\<forall>c\<in>set (children ?t). count c \<noteq> 0"
    by (auto simp: create_new_child_def create_child_with_current_counts_def)
  ultimately have "\<exists>u. category_utility ?t = Inr u"
    using category_utility_defined by blast
  then show ?thesis
    unfolding cu_for_fringe_split_def Let_def .
qed

section \<open>The two best children\<close>

lemma collect_map_defined:
  "\<forall>x\<in>set xs. \<exists>y. f x = Inr y \<Longrightarrow> \<exists>ys. collect (map f xs) = Inr ys \<and> length ys = length xs"
proof (induction xs)
  case Nil
  then show ?case by simp
next
  case (Cons x xs)
  then obtain y ys where "f x = Inr y" and "collect (map f xs) = Inr ys"
    and "length ys = length xs"
    by auto
  then show ?case by simp
qed

lemma collect_Inr_values:
  "collect (map (\<lambda>(k, c). case g k of Inl e \<Rightarrow> Inl e | Inr cu \<Rightarrow> Inr (cu, k)) ps) = Inr xs
   \<Longrightarrow> \<forall>x\<in>set xs. g (snd x) = Inr (fst x)"
proof (induction ps arbitrary: xs)
  case Nil
  then show ?case by simp
next
  case (Cons p ps)
  then show ?case
    by (cases p) (auto split: sum.splits)
qed

lemma two_best_children_defined:
  assumes "children n \<noteq> []" and "0 \<le> count n" and "\<forall>c\<in>set (children n). 0 < count c"
  shows "\<exists>b1 b2. two_best_children n inst = Inr (b1, b2)"
proof -
  let ?f = "\<lambda>(k, c). case cu_for_insert n k inst of
                        Inl e \<Rightarrow> Inl e
                      | Inr cu \<Rightarrow> Inr (cu, k)"
  have "\<forall>x\<in>set (enumerate 0 (children n)). \<exists>y. ?f x = Inr y"
  proof
    fix x assume "x \<in> set (enumerate 0 (children n))"
    obtain k c where x: "x = (k, c)" by (cases x)
    from cu_for_insert_defined [OF assms(2,3)] obtain u where
      "cu_for_insert n k inst = Inr u" by blast
    then show "\<exists>y. ?f x = Inr y" by (simp add: x)
  qed
  from collect_map_defined [OF this] obtain children_cu where
    c: "collect (map ?f (enumerate 0 (children n))) = Inr children_cu"
    and l: "length children_cu = length (enumerate 0 (children n))"
    by blast
  from l assms(1) have "length (sort_key (\<lambda>x. - fst x) children_cu) \<noteq> 0" by simp
  then have "sort_key (\<lambda>x. - fst x) children_cu \<noteq> []" by (metis length_0_conv)
  then have "\<exists>b1 b2. (case sort_key (\<lambda>x. - fst x) children_cu of
                  [] \<Rightarrow> Inl IndexError
                | [b1] \<Rightarrow> Inr (b1, None)
                | b1 # b2 # rest \<Rightarrow> Inr (b1, Some b2)) = Inr (b1, b2)"
    by (auto split: list.splits)
  with c assms(1) show ?thesis
    by (simp add: two_best_children_def)
qed

lemma two_best_children_best:
  assumes "two_best_children n inst = Inr (b1, b2)"
  shows "cu_for_insert n (snd b1) inst = Inr (fst b1)"
    and "k < length (children n) \<Longrightarrow> \<exists>u. cu_for_insert n k inst = Inr u \<and> u \<le> fst b1"
proof -
  from assms obtain children_cu where
    coll: "collect (map (\<lambda>(k, c). case cu_for_insert n k inst of
                                          Inl e \<Rightarrow> Inl e
                                        | Inr cu \<Rightarrow> Inr (cu, k))
                             (enumerate 0 (children n))) = Inr children_cu"
    and srt: "(case sort_key (\<lambda>x. - fst x) children_cu of
                  [] \<Rightarrow> Inl IndexError
                | [b1] \<Rightarrow> Inr (b1, None)
                | b1 # b2 # rest \<Rightarrow> Inr (b1, Some b2)) = Inr (b1, b2)"
    by (auto simp: two_best_children_def split: if_splits sum.splits)
  have pos: "map snd children_cu = [0..<length (children n)]"
    using collect_Inr_positions [OF coll] by (simp add: map_fst_enumerate)
  have val: "\<forall>x\<in>set children_cu. cu_for_insert n (snd x) inst = Inr (fst x)"
    by (rule collect_Inr_values [OF coll])
  define sorted_cu where "sorted_cu = sort_key (\<lambda>x. - fst x) children_cu"
  from srt obtain rest where s: "sorted_cu = b1 # rest"
    unfolding sorted_cu_def [symmetric] by (cases sorted_cu) (auto split: list.splits)
  have set_eq: "set sorted_cu = set children_cu" by (simp add: sorted_cu_def)
  with s val show "cu_for_insert n (snd b1) inst = Inr (fst b1)" by auto
  have "sorted (map (\<lambda>x. - fst x) sorted_cu)"
    unfolding sorted_cu_def by (rule sorted_sort_key)
  with s have le: "\<forall>x\<in>set sorted_cu. fst x \<le> fst b1" by auto
  assume "k < length (children n)"
  then have "k \<in> set (map snd children_cu)" by (simp add: pos)
  then obtain x where "x \<in> set children_cu" and "snd x = k" by auto
  with val le set_eq show "\<exists>u. cu_for_insert n k inst = Inr u \<and> u \<le> fst b1"
    by auto
qed

text \<open>
  Claim C9. On a node without children \<^verbatim>\<open>two_best_children\<close> raises the exception
  \<^verbatim>\<open>No children!\<close>. On a node with children, of non-negative count and whose children
  have positive counts, it returns; the first component of the result is a child whose
  \<^verbatim>\<open>cu_for_insert\<close> is the greatest among all children.
\<close>

theorem two_best_children_result:
  "(children n = [] \<longrightarrow> two_best_children n inst = Inl NoChildren)
   \<and> (children n \<noteq> [] \<and> 0 \<le> count n \<and> (\<forall>c\<in>set (children n). 0 < count c) \<longrightarrow>
        (\<exists>cu1 i b2. two_best_children n inst = Inr ((cu1, i), b2)
           \<and> i < length (children n)
           \<and> cu_for_insert n i inst = Inr cu1
           \<and> (\<forall>k<length (children n). \<exists>u. cu_for_insert n k inst = Inr u \<and> u \<le> cu1)))"
proof (intro conjI impI)
  assume "children n = []"
  then show "two_best_children n inst = Inl NoChildren"
    by (simp add: two_best_children_def)
next
  assume a: "children n \<noteq> [] \<and> 0 \<le> count n \<and> (\<forall>c\<in>set (children n). 0 < count c)"
  then obtain b1 b2 where t: "two_best_children n inst = Inr (b1, b2)"
    using two_best_children_defined [of n inst] by blast
  obtain cu1 i where b1: "b1 = (cu1, i)" by (cases b1)
  from two_best_children_positions(1) [OF t] two_best_children_best [OF t] b1
  have "i < length (children n)" and "cu_for_insert n i inst = Inr cu1"
    and "\<forall>k<length (children n). \<exists>u. cu_for_insert n k inst = Inr u \<and> u \<le> cu1"
    by auto
  with t b1 show "\<exists>cu1 i b2. two_best_children n inst = Inr ((cu1, i), b2)
           \<and> i < length (children n)
           \<and> cu_for_insert n i inst = Inr cu1
           \<and> (\<forall>k<length (children n). \<exists>u. cu_for_insert n k inst = Inr u \<and> u \<le> cu1)"
    by blast
qed


theorem two_best_children_result_witness:
  "two_best_children (new_node :: (string, string) node) [(''color'', ''red'')] = Inl NoChildren
   \<and> (\<exists>cu1 i b2.
         two_best_children
           (Node 3 [(''color'', [(''red'', 2), (''blue'', 1)])]
              [Node 2 [(''color'', [(''red'', 2)])] [], Node 1 [(''color'', [(''blue'', 1)])] []])
           [(''color'', ''red'')] = Inr ((cu1, i), b2)
         \<and> i < 2
         \<and> cu_for_insert
             (Node 3 [(''color'', [(''red'', 2), (''blue'', 1)])]
                [Node 2 [(''color'', [(''red'', 2)])] [], Node 1 [(''color'', [(''blue'', 1)])] []])
             i [(''color'', ''red'')] = Inr cu1
         \<and> (\<forall>k<2. \<exists>u. cu_for_insert
             (Node 3 [(''color'', [(''red'', 2), (''blue'', 1)])]
                [Node 2 [(''color'', [(''red'', 2)])] [], Node 1 [(''color'', [(''blue'', 1)])] []])
             k [(''color'', ''red'')] = Inr u \<and> u \<le> cu1))"
  using two_best_children_result [of "new_node :: (string, string) node" "[(''color'', ''red'')]"]
    two_best_children_result
      [of "Node 3 [(''color'', [(''red'', 2), (''blue'', 1)])]
              [Node 2 [(''color'', [(''red'', 2)])] [], Node 1 [(''color'', [(''blue'', 1)])] []]"
          "[(''color'', ''red'')]"]
  by (simp add: numeral_2_eq_2)

section \<open>Merging and splitting\<close>

lemma remove_child_last: "remove_child (length xs) (xs @ [x]) = xs"
  by (simp add: remove_child_def)

text \<open>
  Claim C7. For two different children of a node, \<^verbatim>\<open>merge\<close> followed at once by
  \<^verbatim>\<open>split\<close> of the merged node succeeds and leaves the node with its other children,
  followed by the two children themselves, each with the count, the counts of its pairs
  and the subtree it had; the counts of the node do not change.
\<close>

theorem merge_then_split:
  assumes "i < length (children n)" and "j < length (children n)" and "i \<noteq> j"
  shows "\<exists>n1 n2. merge n i j = Inr n1
           \<and> split n1 (length (children n1) - 1) = Inr n2
           \<and> children n2 =
               remove_child (if i < j then j - 1 else j) (remove_child i (children n))
               @ [children n ! i, children n ! j]
           \<and> count n2 = count n \<and> av_counts n2 = av_counts n"
proof -
  define rest where
    "rest = remove_child (if i < j then j - 1 else j) (remove_child i (children n))"
  define new_child where "new_child = merged_child (children n ! i) (children n ! j)"
  define n1 where "n1 = with_children n (rest @ [new_child])"
  have m: "merge n i j = Inr n1"
    using assms by (simp add: merge_def Let_def n1_def rest_def new_child_def)
  have last: "length (children n1) - 1 = length rest"
    by (simp add: n1_def)
  have nth: "children n1 ! length rest = new_child"
    by (simp add: n1_def)
  have "split n1 (length rest) =
      Inr (with_children n1 (remove_child (length rest) (children n1) @ children new_child))"
    by (simp add: split_def nth) (simp add: n1_def)
  also have "remove_child (length rest) (children n1) = rest"
    by (simp add: n1_def remove_child_last)
  also have "children new_child = [children n ! i, children n ! j]"
    by (simp add: new_child_def merged_child_def)
  finally have s: "split n1 (length (children n1) - 1) =
      Inr (with_children n1 (rest @ [children n ! i, children n ! j]))"
    by (simp only: last)
  show ?thesis
    using m s by (simp add: n1_def rest_def)
qed

theorem merge_then_split_witness:
  "\<exists>n1 n2. merge (Node 3 [(''a'', [(''x'', 2), (''y'', 1)])]
                    [Node 1 [(''a'', [(''x'', 1)])] [], Node 1 [(''a'', [(''y'', 1)])] [],
                     Node 1 [(''a'', [(''x'', 1)])] []]) 0 2 = Inr n1
           \<and> split n1 (length (children n1) - 1) = Inr n2
           \<and> children n2 =
               [Node 1 [(''a'', [(''y'', 1)])] [], Node 1 [(''a'', [(''x'', 1)])] [],
                Node 1 [(''a'', [(''x'', 1)])] []]
           \<and> count n2 = 3 \<and> av_counts n2 = [(''a'', [(''x'', 2), (''y'', 1)])]"
  using merge_then_split
    [of 0 "Node 3 [(''a'', [(''x'', 2), (''y'', 1)])]
                    [Node 1 [(''a'', [(''x'', 1)])] [], Node 1 [(''a'', [(''y'', 1)])] [],
                     Node 1 [(''a'', [(''x'', 1)])] []]" 2]
  by (simp add: remove_child_def)


section \<open>One step of the driver\<close>

lemma increment_with_children:
  "increment_counts (with_children n cs) inst = with_children (increment_counts n inst) cs"
  by (simp add: increment_counts_def with_children_def)

lemma with_children_twice [simp]: "with_children (with_children n cs) cs' = with_children n cs'"
  by (simp add: with_children_def)

lemma spec_guesses_cong:
  "count a = count b \<Longrightarrow> av_counts a = av_counts b \<Longrightarrow>
   spec_expected_correct_guesses a = spec_expected_correct_guesses b"
  by (simp add: spec_expected_correct_guesses_def stored_counts_def)

lemma cu_for_fringe_split_new_node: "cu_for_fringe_split new_node inst = Inr 0"
proof -
  define x :: "('a, 'b) node" where "x = increment_counts new_node inst"
  define t where "t = with_children x [x]"
  have temp: "update_counts_from_node new_node (new_node :: ('a, 'b) node) = new_node"
    by (simp add: update_counts_from_node_def new_node_def)
  have "cu_for_fringe_split new_node inst = category_utility t"
    by (simp add: cu_for_fringe_split_def temp create_child_with_current_counts_def
        create_new_child_def t_def x_def Let_def)
  moreover have "count t \<noteq> 0" by (simp add: t_def x_def)
  moreover have "\<forall>c\<in>set (children t). count c \<noteq> 0" by (simp add: t_def x_def)
  moreover have "spec_expected_correct_guesses x = spec_expected_correct_guesses t"
    by (rule spec_guesses_cong) (simp_all add: t_def)
  then have "spec_category_utility t = 0"
    by (simp add: spec_category_utility_def t_def)
  ultimately show ?thesis
    by (simp add: category_utility_defined t_def)
qed

text \<open>
  Claim C4. At a node with children, when the utility that \<^verbatim>\<open>get_best_operation\<close>
  returns does not exceed \<^verbatim>\<open>min_cu\<close>, \<^verbatim>\<open>cobweb\<close> adds the instance to the counts
  of the node, removes all its children and returns that node.
\<close>

theorem cobweb_prunes:
  assumes "children n \<noteq> []"
    and "two_best_children n inst = Inr (best1, best2)"
    and "get_best_operation n inst best1 best2 default_ops = Inr (action_cu, best_action)"
    and "action_cu \<le> min_cu"
  shows "\<exists>n'. cobweb min_cu n inst = Inr (n', [])
           \<and> node_at n' [] = Some n'
           \<and> children n' = []
           \<and> count n' = count n + 1
           \<and> (\<forall>a v. stored n' a v = stored n a v + occurrences inst a v)"
proof -
  have "cobweb min_cu n inst = Inr (with_children (increment_counts n inst) [], [])"
    using assms by (subst cobweb.simps) simp
  then show ?thesis
    by (simp add: stored_increment_counts)
qed

theorem cobweb_prunes_witness:
  "\<exists>n'. cobweb 0 (Node 2 [(''color'', [(''red'', 2)])]
                    [Node 1 [(''color'', [(''red'', 1)])] [],
                     Node 1 [(''color'', [(''red'', 1)])] []]) [(''color'', ''red'')]
            = Inr (n', [])
         \<and> node_at n' [] = Some n'
         \<and> children n' = []
         \<and> count n' = count (Node 2 [(''color'', [(''red'', 2)])]
                    [Node 1 [(''color'', [(''red'', 1)])] [],
                     Node 1 [(''color'', [(''red'', 1)])] []]) + 1
         \<and> (\<forall>a v. stored n' a v =
               stored (Node 2 [(''color'', [(''red'', 2)])]
                    [Node 1 [(''color'', [(''red'', 1)])] [],
                     Node 1 [(''color'', [(''red'', 1)])] []]) a v
               + occurrences [(''color'', ''red'')] a v)"
proof -
  have 1: "children (Node 2 [(''color'', [(''red'', 2)])]
                    [Node 1 [(''color'', [(''red'', 1)])] [],
                     Node 1 [(''color'', [(''red'', 1)])] []]) \<noteq> []"
    by simp
  have 2: "two_best_children (Node 2 [(''color'', [(''red'', 2)])]
                    [Node 1 [(''color'', [(''red'', 1)])] [],
                     Node 1 [(''color'', [(''red'', 1)])] []]) [(''color'', ''red'')]
      = Inr ((0, 0), Some (0, 1))"
    by code_simp
  have 3: "get_best_operation (Node 2 [(''color'', [(''red'', 2)])]
                    [Node 1 [(''color'', [(''red'', 1)])] [],
                     Node 1 [(''color'', [(''red'', 1)])] []]) [(''color'', ''red'')]
        (0, 0) (Some (0, 1)) default_ops = Inr (0, ''new'')"
    by code_simp
  have 4: "(0 :: real) \<le> 0" by simp
  from cobweb_prunes [OF 1 2 3 4] show ?thesis .
qed

text \<open>
  Claim C5. At a leaf that holds at least one instance, or at the fresh node under a
  threshold that is not negative: when \<^verbatim>\<open>cu_for_fringe_split\<close> does not exceed
  \<^verbatim>\<open>min_cu\<close>, the instance is added to the counts of the leaf, which is returned and
  still has no children; otherwise the leaf gets two children, the first with the counts
  the leaf had, the second with the instance alone, the instance is added to the counts
  of the former leaf, and the second child is returned.
\<close>

theorem cobweb_at_leaf:
  assumes "children n = []" and "dict_ok (av_counts n)"
    and "0 < count n \<or> (n = new_node \<and> 0 \<le> min_cu)"
  shows "\<exists>cu. cu_for_fringe_split n inst = Inr cu
           \<and> (cu \<le> min_cu \<longrightarrow>
                (\<exists>n'. cobweb min_cu n inst = Inr (n', [])
                   \<and> node_at n' [] = Some n'
                   \<and> children n' = []
                   \<and> count n' = count n + 1
                   \<and> (\<forall>a v. stored n' a v = stored n a v + occurrences inst a v)))
           \<and> (\<not> cu \<le> min_cu \<longrightarrow>
                (\<exists>n' first second. cobweb min_cu n inst = Inr (n', [1])
                   \<and> children n' = [first, second]
                   \<and> node_at n' [1] = Some second
                   \<and> count n' = count n + 1
                   \<and> (\<forall>a v. stored n' a v = stored n a v + occurrences inst a v)
                   \<and> children first = [] \<and> count first = count n
                   \<and> (\<forall>a v. stored first a v = stored n a v)
                   \<and> children second = [] \<and> count second = 1
                   \<and> (\<forall>a v. stored second a v = occurrences inst a v)))"
proof -
  from assms(3) have "0 \<le> count n" by auto
  from cu_for_fringe_split_defined [OF this] obtain cu where
    cu: "cu_for_fringe_split n inst = Inr cu" by blast
  have le: "cu \<le> min_cu \<Longrightarrow> cobweb min_cu n inst = Inr (increment_counts n inst, [])"
    using assms(1) cu by (subst cobweb.simps) simp
  have pos: "0 < count n" if "\<not> cu \<le> min_cu"
  proof (rule ccontr)
    assume "\<not> 0 < count n"
    with assms(3) have "n = new_node" and "0 \<le> min_cu" by auto
    with cu that show False by (simp add: cu_for_fringe_split_new_node)
  qed
  define first where "first = copy_node n"
  define second :: "('a, 'b) node" where "second = increment_counts new_node inst"
  define n' where "n' = with_children (increment_counts n inst) [first, second]"
  have gt: "cobweb min_cu n inst = Inr (n', [1])" if "\<not> cu \<le> min_cu"
    using assms(1) cu that pos [OF that]
    by (subst cobweb.simps)
      (simp add: create_child_with_current_counts_def create_new_child_def
        increment_with_children n'_def first_def second_def Let_def)
  have first: "children first = []" "count first = count n"
    "\<forall>a v. stored first a v = stored n a v"
    using assms(1,2) by (simp_all add: first_def children_copy_node stored_copy_node)
  have second: "children second = []" "count second = 1"
    "\<forall>a v. stored second a v = occurrences inst a v"
    by (simp_all add: second_def stored_increment_counts)
  have n': "children n' = [first, second]" "node_at n' [1] = Some second"
    "count n' = count n + 1"
    "\<forall>a v. stored n' a v = stored n a v + occurrences inst a v"
    by (simp_all add: n'_def stored_increment_counts)
  show ?thesis
  proof (cases "cu \<le> min_cu")
    case True
    with le cu assms(1) show ?thesis
      by (simp add: stored_increment_counts)
  next
    case False
    with gt [OF False] cu first second n' show ?thesis
      by blast
  qed
qed

theorem cobweb_at_leaf_witness:
  "\<exists>cu. cu_for_fringe_split (Node 2 [(''color'', [(''red'', 2)])] []) [(''color'', ''blue'')]
          = Inr cu
     \<and> (cu \<le> 0 \<longrightarrow>
          (\<exists>n'. cobweb 0 (Node 2 [(''color'', [(''red'', 2)])] []) [(''color'', ''blue'')]
                  = Inr (n', [])
             \<and> node_at n' [] = Some n'
             \<and> children n' = []
             \<and> count n' = count (Node 2 [(''color'', [(''red'', 2)])] []) + 1
             \<and> (\<forall>a v. stored n' a v = stored (Node 2 [(''color'', [(''red'', 2)])] []) a v
                   + occurrences [(''color'', ''blue'')] a v)))
     \<and> (\<not> cu \<le> 0 \<longrightarrow>
          (\<exists>n' first second.
             cobweb 0 (Node 2 [(''color'', [(''red'', 2)])] []) [(''color'', ''blue'')]
               = Inr (n', [1])
             \<and> children n' = [first, second]
             \<and> node_at n' [1] = Some second
             \<and> count n' = count (Node 2 [(''color'', [(''red'', 2)])] []) + 1
             \<and> (\<forall>a v. stored n' a v = stored (Node 2 [(''color'', [(''red'', 2)])] []) a v
                   + occurrences [(''color'', ''blue'')] a v)
             \<and> children first = []
             \<and> count first = count (Node 2 [(''color'', [(''red'', 2)])] [])
             \<and> (\<forall>a v. stored first a v = stored (Node 2 [(''color'', [(''red'', 2)])] []) a v)
             \<and> children second = [] \<and> count second = 1
             \<and> (\<forall>a v. stored second a v = occurrences [(''color'', ''blue'')] a v)))"
proof -
  have 1: "children (Node 2 [(''color'', [(''red'', 2)])] []) = []" by simp
  have 2: "dict_ok (av_counts (Node 2 [(''color'', [(''red'', 2)])] []))"
    by (simp add: dict_ok_def)
  have 3: "0 < count (Node 2 [(''color'', [(''red'', 2)])] [])
      \<or> (Node 2 [(''color'', [(''red'', 2)])] [] = new_node \<and> (0 :: real) \<le> 0)"
    by simp
  from cobweb_at_leaf [OF 1 2 3] show ?thesis .
qed

section \<open>Categorization\<close>

text \<open>
  Counts as \<^verbatim>\<open>ifit\<close> leaves them: the count of the node is not negative and every
  node below it has a positive count.
\<close>

fun counted :: "('a, 'v) node \<Rightarrow> bool" where
  "counted (Node c av cs) = (0 \<le> c \<and> (\<forall>x\<in>set cs. 0 < count x \<and> counted x))"

lemma counted_iff:
  "counted n = (0 \<le> count n \<and> (\<forall>x\<in>set (children n). 0 < count x \<and> counted x))"
  by (cases n) simp

lemma cobweb_categorize_leaf:
  "counted n \<Longrightarrow>
   \<exists>path leaf. cobweb_categorize n inst = Inr path \<and> node_at n path = Some leaf
      \<and> children leaf = []"
proof (induction n inst rule: cobweb_categorize.induct)
  case (1 current inst)
  show ?case
  proof (cases "children current = []")
    case True
    then show ?thesis
      by (subst cobweb_categorize.simps) simp
  next
    case False
    from "1.prems" have c: "0 \<le> count current"
      and cs: "\<forall>x\<in>set (children current). 0 < count x \<and> counted x"
      using counted_iff [of current] by auto
    from two_best_children_defined [OF False c] cs obtain b1 b2 where
      t: "two_best_children current inst = Inr (b1, b2)" by blast
    from two_best_children_positions(1) [OF t]
    have i: "snd b1 < length (children current)" .
    with cs have "counted (children current ! snd b1)" by simp
    from "1.IH" [OF False t refl this] obtain path leaf where
      "cobweb_categorize (children current ! snd b1) inst = Inr path"
      and "node_at (children current ! snd b1) path = Some leaf" and "children leaf = []"
      by blast
    with False t i have "cobweb_categorize current inst = Inr (snd b1 # path)
        \<and> node_at current (snd b1 # path) = Some leaf \<and> children leaf = []"
      by (subst cobweb_categorize.simps) simp
    then show ?thesis by blast
  qed
qed


section \<open>Invariants of the tree\<close>

text \<open>
  \<open>conserved\<close>: at every node with children, the count is the sum of the counts of the
  children, and so is the count stored for each attribute/value pair. \<open>branching\<close>: every
  node with children has at least two. \<open>sound k\<close> is the invariant of the driver: counts
  are positive, dictionaries have each key once, a node with children has at least
  \<open>k\<close> of them, and counts are conserved.
\<close>

definition conserved_at :: "('a, 'v) node \<Rightarrow> bool" where
  "conserved_at n =
     (children n \<noteq> [] \<longrightarrow>
        count n = (\<Sum>c\<leftarrow>children n. count c)
        \<and> (\<forall>a v. stored n a v = (\<Sum>c\<leftarrow>children n. stored c a v)))"

fun conserved :: "('a, 'v) node \<Rightarrow> bool" where
  "conserved (Node c av cs) = (conserved_at (Node c av cs) \<and> (\<forall>x\<in>set cs. conserved x))"

fun branching :: "('a, 'v) node \<Rightarrow> bool" where
  "branching (Node c av cs) = ((cs = [] \<or> 2 \<le> length cs) \<and> (\<forall>x\<in>set cs. branching x))"

fun sound :: "nat \<Rightarrow> ('a, 'v) node \<Rightarrow> bool" where
  "sound k (Node c av cs) =
     (0 < c \<and> dict_ok av \<and> (cs \<noteq> [] \<longrightarrow> k \<le> length cs)
      \<and> conserved_at (Node c av cs) \<and> (\<forall>x\<in>set cs. sound k x))"

lemma sound_iff:
  "sound k n =
     (0 < count n \<and> dict_ok (av_counts n) \<and> (children n \<noteq> [] \<longrightarrow> k \<le> length (children n))
      \<and> conserved_at n \<and> (\<forall>x\<in>set (children n). sound k x))"
  by (cases n) simp

lemma sound_conserved: "sound k n \<Longrightarrow> conserved n"
  by (induction n) auto

lemma sound_branching: "sound 2 n \<Longrightarrow> branching n"
  by (induction n) auto

lemma sum_remove_child:
  fixes f :: "'x \<Rightarrow> int"
  assumes "i < length cs"
  shows "(\<Sum>c\<leftarrow>remove_child i cs. f c) + f (cs ! i) = (\<Sum>c\<leftarrow>cs. f c)"
proof -
  from assms have "cs = take i cs @ (cs ! i) # drop (Suc i) cs"
    by (simp add: id_take_nth_drop)
  then have "(\<Sum>c\<leftarrow>cs. f c) = (\<Sum>c\<leftarrow>take i cs @ (cs ! i) # drop (Suc i) cs. f c)"
    by simp
  then show ?thesis by (simp add: remove_child_def)
qed

lemma sum_list_replace:
  fixes f :: "'x \<Rightarrow> int"
  assumes "i < length cs"
  shows "(\<Sum>c\<leftarrow>cs[i := x]. f c) = (\<Sum>c\<leftarrow>cs. f c) - f (cs ! i) + f x"
proof -
  from assms have "cs = take i cs @ (cs ! i) # drop (Suc i) cs"
    by (simp add: id_take_nth_drop)
  then have "(\<Sum>c\<leftarrow>cs. f c) = (\<Sum>c\<leftarrow>take i cs @ (cs ! i) # drop (Suc i) cs. f c)"
    by simp
  moreover from assms have "cs[i := x] = take i cs @ x # drop (Suc i) cs"
    by (simp add: upd_conv_take_nth_drop)
  ultimately show ?thesis by simp
qed

lemma set_remove_child: "set (remove_child i cs) \<subseteq> set cs"
  by (auto simp: remove_child_def dest: in_set_takeD in_set_dropD)

subsection \<open>The branches of the driver\<close>

lemma cobweb_leaf_eq:
  assumes "children n = []" and "cu_for_fringe_split n inst = Inr cu"
  shows "cobweb min_cu n inst =
     (if cu \<le> min_cu then Inr (increment_counts n inst, [])
      else if 0 < count n
        then Inr (with_children (increment_counts n inst)
                    [copy_node n, increment_counts new_node inst], [1])
        else Inr (with_children (increment_counts n inst)
                    [increment_counts new_node inst], [0]))"
  using assms
  by (subst cobweb.simps)
    (simp add: create_child_with_current_counts_def create_new_child_def
      increment_with_children Let_def)

lemma cobweb_prune_eq:
  assumes "children n \<noteq> []" and "two_best_children n inst = Inr (b1, b2)"
    and "get_best_operation n inst b1 b2 default_ops = Inr (u, nm)" and "u \<le> min_cu"
  shows "cobweb min_cu n inst = Inr (with_children (increment_counts n inst) [], [])"
  using assms by (subst cobweb.simps) simp

lemma cobweb_best_eq:
  assumes "children n \<noteq> []" and "two_best_children n inst = Inr (b1, b2)"
    and "get_best_operation n inst b1 b2 default_ops = Inr (u, ''best'')" and "\<not> u \<le> min_cu"
  shows "cobweb min_cu n inst =
     (case cobweb min_cu (children n ! snd b1) inst of
        Inl e \<Rightarrow> Inl e
      | Inr (c', path) \<Rightarrow>
          Inr (with_children (increment_counts n inst) ((children n)[snd b1 := c']),
               snd b1 # path))"
  using assms by (subst cobweb.simps) simp

lemma cobweb_new_eq:
  assumes "children n \<noteq> []" and "two_best_children n inst = Inr (b1, b2)"
    and "get_best_operation n inst b1 b2 default_ops = Inr (u, ''new'')" and "\<not> u \<le> min_cu"
  shows "cobweb min_cu n inst =
     Inr (with_children (increment_counts n inst)
            (children n @ [increment_counts new_node inst]),
          [length (children n)])"
  using assms by (subst cobweb.simps) (simp add: create_new_child_def Let_def)

lemma cobweb_merge_eq:
  assumes "children n \<noteq> []" and "two_best_children n inst = Inr (b1, Some x2)"
    and "get_best_operation n inst b1 (Some x2) default_ops = Inr (u, ''merge'')"
    and "\<not> u \<le> min_cu"
    and "merge (increment_counts n inst) (snd b1) (snd x2) = Inr n1"
  shows "cobweb min_cu n inst =
     (case cobweb min_cu (last (children n1)) inst of
        Inl e \<Rightarrow> Inl e
      | Inr (m', path) \<Rightarrow>
          Inr (with_children n1 (butlast (children n1) @ [m']),
               (length (children n1) - 1) # path))"
  using assms by (subst cobweb.simps) simp

lemma cobweb_split_eq:
  assumes "children n \<noteq> []" and "two_best_children n inst = Inr (b1, b2)"
    and "get_best_operation n inst b1 b2 default_ops = Inr (u, ''split'')" and "\<not> u \<le> min_cu"
    and "split n (snd b1) = Inr n1"
  shows "cobweb min_cu n inst = cobweb min_cu n1 inst"
  using assms by (subst cobweb.simps) simp

lemma sound_counts:
  assumes "sound k n"
  shows "0 < count n" and "\<forall>c\<in>set (children n). 0 < count c"
    and "i < length (children n) \<Longrightarrow> \<forall>c\<in>set (children (children n ! i)). 0 < count c"
proof -
  from assms show "0 < count n" using sound_iff [of k n] by simp
  from assms have cs: "\<forall>c\<in>set (children n). sound k c" using sound_iff [of k n] by simp
  then show "\<forall>c\<in>set (children n). 0 < count c" using sound_iff [of k] by blast
  assume "i < length (children n)"
  with cs have "sound k (children n ! i)" by simp
  then have "\<forall>c\<in>set (children (children n ! i)). sound k c"
    using sound_iff [of k "children n ! i"] by simp
  then show "\<forall>c\<in>set (children (children n ! i)). 0 < count c"
    using sound_iff [of k] by blast
qed

lemma add_op_defined:
  "(c \<Longrightarrow> \<exists>u. r = Inr u) \<Longrightarrow> \<exists>ops'. add_op c r name ops = Inr ops' \<and> set ops \<subseteq> set ops'"
  by (cases c) (auto simp: add_op_def)

lemma get_best_operation_defined:
  assumes s: "sound k n"
    and t: "two_best_children n inst = Inr (b1, b2)"
  shows "\<exists>u nm. get_best_operation n inst b1 b2 default_ops = Inr (u, nm)"
proof -
  note c = sound_counts [OF s]
  from c(1) have c0: "0 \<le> count n" by simp
  have i: "snd b1 < length (children n)"
    by (rule two_best_children_positions(1) [OF t])
  have "\<exists>ops1. add_op (''best'' \<in> set default_ops) (Inr (fst b1)) ''best'' [] = Inr ops1
      \<and> (fst b1, ''best'') \<in> set ops1"
    by (simp add: add_op_def default_ops_def)
  then obtain ops1 where o1: "add_op (''best'' \<in> set default_ops) (Inr (fst b1)) ''best'' [] = Inr ops1"
    and m1: "(fst b1, ''best'') \<in> set ops1" by blast
  from add_op_defined [of "''new'' \<in> set default_ops" "cu_for_new_child n inst" "''new''" ops1]
    cu_for_new_child_defined [OF c0 c(2)]
  obtain ops2 where o2: "add_op (''new'' \<in> set default_ops) (cu_for_new_child n inst) ''new'' ops1 = Inr ops2"
    and m2: "set ops1 \<subseteq> set ops2" by blast
  have "\<exists>u. (case best2 of None \<Rightarrow> Inl AttributeError
              | Some b2 \<Rightarrow> cu_for_merge n (snd b1) (snd b2) inst) = Inr u"
    if "best2 \<noteq> None" and "b2 = best2" for best2
  proof -
    from that obtain x2 where x2: "b2 = Some x2" and "best2 = Some x2" by auto
    from two_best_children_positions(2) [OF t x2] have "snd x2 < length (children n)" by simp
    from cu_for_merge_defined [OF c0 c(2) i this] \<open>best2 = Some x2\<close> show ?thesis by simp
  qed
  then have "''merge'' \<in> set default_ops \<and> length (children n) > 2 \<and> b2 \<noteq> None \<Longrightarrow>
      \<exists>u. (case b2 of None \<Rightarrow> Inl AttributeError
              | Some b2 \<Rightarrow> cu_for_merge n (snd b1) (snd b2) inst) = Inr u"
    by blast
  from add_op_defined [where name = "''merge''" and ops = ops2, OF this]
  obtain ops3 where o3: "add_op (''merge'' \<in> set default_ops \<and> length (children n) > 2 \<and> b2 \<noteq> None)
             (case b2 of
                None \<Rightarrow> Inl AttributeError
              | Some b2 \<Rightarrow> cu_for_merge n (snd b1) (snd b2) inst)
             ''merge'' ops2 = Inr ops3"
    and m3: "set ops2 \<subseteq> set ops3" by blast
  from add_op_defined [of "''split'' \<in> set default_ops
                    \<and> length (children (children n ! snd b1)) > 0"
      "cu_for_split n (snd b1)" "''split''" ops3]
    cu_for_split_defined [OF c(1) c(2) c(3) [OF i]]
  obtain operations where o4: "add_op (''split'' \<in> set default_ops
                    \<and> length (children (children n ! snd b1)) > 0)
             (cu_for_split n (snd b1)) ''split'' ops3 = Inr operations"
    and m4: "set ops3 \<subseteq> set operations" by blast
  have cand: "candidate_operations n inst b1 b2 default_ops = Inr operations"
    by (simp only: candidate_operations_def o1 o2 o3 o4 sum.case)
  from m1 m2 m3 m4 have "operations \<noteq> []" by auto
  then have "length (rev (sort operations)) \<noteq> 0" by simp
  then have "rev (sort operations) \<noteq> []" by (metis length_0_conv)
  then obtain best rest where "rev (sort operations) = best # rest"
    by (cases "rev (sort operations)") auto
  with cand have "get_best_operation n inst b1 b2 default_ops = Inr best"
    by (simp add: get_best_operation_def)
  then show ?thesis by (cases best) auto
qed

subsection \<open>Each branch keeps the invariant\<close>

lemma soundI:
  assumes "0 < count n" and "dict_ok (av_counts n)"
    and "children n \<noteq> [] \<Longrightarrow> k \<le> length (children n)"
    and "children n \<noteq> [] \<Longrightarrow> count n = (\<Sum>c\<leftarrow>children n. count c)"
    and "\<And>a v. children n \<noteq> [] \<Longrightarrow> stored n a v = (\<Sum>c\<leftarrow>children n. stored c a v)"
    and "\<And>x. x \<in> set (children n) \<Longrightarrow> sound k x"
  shows "sound k n"
  using assms sound_iff [of k n] by (simp add: conserved_at_def)

lemma sound_dict_ok: "sound k n \<Longrightarrow> dict_ok (av_counts n)"
  using sound_iff [of k n] by simp

lemma sound_children: "sound k n \<Longrightarrow> x \<in> set (children n) \<Longrightarrow> sound k x"
  using sound_iff [of k n] by simp

lemma sound_length: "sound k n \<Longrightarrow> children n \<noteq> [] \<Longrightarrow> k \<le> length (children n)"
  using sound_iff [of k n] by simp

lemma sound_count_sum:
  "sound k n \<Longrightarrow> children n \<noteq> [] \<Longrightarrow> count n = (\<Sum>c\<leftarrow>children n. count c)"
  using sound_iff [of k n] by (simp add: conserved_at_def)

lemma sound_stored_sum:
  "sound k n \<Longrightarrow> children n \<noteq> [] \<Longrightarrow> stored n a v = (\<Sum>c\<leftarrow>children n. stored c a v)"
  using sound_iff [of k n] by (simp add: conserved_at_def)

lemma sound_instance_leaf: "sound k (increment_counts new_node inst)"
  by (rule soundI) (simp_all add: dict_ok_increment_counts)

lemma sound_leaf_increment:
  assumes "sound k n" and "children n = []"
  shows "sound k (increment_counts n inst)"
  by (rule soundI)
    (use assms sound_counts(1) [OF assms(1)] sound_dict_ok [OF assms(1)]
      in \<open>simp_all add: dict_ok_increment_counts\<close>)

lemma sound_copy_leaf:
  assumes "sound k n" and "children n = []"
  shows "sound k (copy_node n)"
  by (rule soundI)
    (use assms sound_counts(1) [OF assms(1)]
      in \<open>simp_all add: dict_ok_copy_node children_copy_node\<close>)

lemma sound_fringe:
  assumes "sound k n" and "children n = []" and "k \<le> 2"
  shows "sound k (with_children (increment_counts n inst)
                    [copy_node n, increment_counts new_node inst])"
proof (rule soundI)
  show "0 < count (with_children (increment_counts n inst)
                    [copy_node n, increment_counts new_node inst])"
    using sound_counts(1) [OF assms(1)] by simp
  show "dict_ok (av_counts (with_children (increment_counts n inst)
                    [copy_node n, increment_counts new_node inst]))"
    using sound_dict_ok [OF assms(1)] by (simp add: dict_ok_increment_counts)
  show "k \<le> length (children (with_children (increment_counts n inst)
                    [copy_node n, increment_counts new_node inst]))"
    using assms(3) by simp
  show "count (with_children (increment_counts n inst)
                    [copy_node n, increment_counts new_node inst])
      = (\<Sum>c\<leftarrow>children (with_children (increment_counts n inst)
                    [copy_node n, increment_counts new_node inst]). count c)"
    by simp
  show "stored (with_children (increment_counts n inst)
                    [copy_node n, increment_counts new_node inst]) a v
      = (\<Sum>c\<leftarrow>children (with_children (increment_counts n inst)
                    [copy_node n, increment_counts new_node inst]). stored c a v)" for a v
    using sound_dict_ok [OF assms(1)]
    by (simp add: stored_increment_counts stored_copy_node)
  show "sound k x" if "x \<in> set (children (with_children (increment_counts n inst)
                    [copy_node n, increment_counts new_node inst]))" for x
    using that sound_copy_leaf [OF assms(1,2)] sound_instance_leaf [of k inst] by auto
qed

lemma sound_prune:
  assumes "sound k n"
  shows "sound k (with_children (increment_counts n inst) [])"
  by (rule soundI)
    (use sound_counts(1) [OF assms] sound_dict_ok [OF assms]
      in \<open>simp_all add: dict_ok_increment_counts\<close>)

lemma sound_new:
  assumes "sound k n" and "children n \<noteq> []"
  shows "sound k (with_children (increment_counts n inst)
                    (children n @ [increment_counts new_node inst]))"
proof (rule soundI)
  show "0 < count (with_children (increment_counts n inst)
                    (children n @ [increment_counts new_node inst]))"
    using sound_counts(1) [OF assms(1)] by simp
  show "dict_ok (av_counts (with_children (increment_counts n inst)
                    (children n @ [increment_counts new_node inst])))"
    using sound_dict_ok [OF assms(1)] by (simp add: dict_ok_increment_counts)
  show "k \<le> length (children (with_children (increment_counts n inst)
                    (children n @ [increment_counts new_node inst])))"
    using sound_length [OF assms] by simp
  show "count (with_children (increment_counts n inst)
                    (children n @ [increment_counts new_node inst]))
      = (\<Sum>c\<leftarrow>children (with_children (increment_counts n inst)
                    (children n @ [increment_counts new_node inst])). count c)"
    using sound_count_sum [OF assms] by simp
  show "stored (with_children (increment_counts n inst)
                    (children n @ [increment_counts new_node inst])) a v
      = (\<Sum>c\<leftarrow>children (with_children (increment_counts n inst)
                    (children n @ [increment_counts new_node inst])). stored c a v)" for a v
    using sound_stored_sum [OF assms, of a v] by (simp add: stored_increment_counts)
  show "sound k x" if "x \<in> set (children (with_children (increment_counts n inst)
                    (children n @ [increment_counts new_node inst])))" for x
    using that sound_children [OF assms(1)] sound_instance_leaf [of k inst] by auto
qed

lemma sound_best:
  assumes "sound k n" and i: "i < length (children n)" and "sound k c'"
    and c: "count c' = count (children n ! i) + 1"
    and st: "\<And>a v. stored c' a v = stored (children n ! i) a v + occurrences inst a v"
  shows "sound k (with_children (increment_counts n inst) ((children n)[i := c']))"
proof (rule soundI)
  let ?n' = "with_children (increment_counts n inst) ((children n)[i := c'])"
  from i have ne: "children n \<noteq> []" by auto
  show "0 < count ?n'" using sound_counts(1) [OF assms(1)] by simp
  show "dict_ok (av_counts ?n')"
    using sound_dict_ok [OF assms(1)] by (simp add: dict_ok_increment_counts)
  show "k \<le> length (children ?n')"
    using sound_length [OF assms(1) ne] by simp
  show "count ?n' = (\<Sum>x\<leftarrow>children ?n'. count x)"
    using sound_count_sum [OF assms(1) ne] c by (simp add: sum_list_replace [OF i])
  show "stored ?n' a v = (\<Sum>x\<leftarrow>children ?n'. stored x a v)" for a v
    using sound_stored_sum [OF assms(1) ne, of a v] st [of a v]
    by (simp add: sum_list_replace [OF i] stored_increment_counts)
  show "sound k x" if "x \<in> set (children ?n')" for x
  proof -
    from that have "x \<in> insert c' (set (children n))"
      using set_update_subset_insert [of "children n" i c'] by auto
    with assms(3) sound_children [OF assms(1)] show ?thesis by auto
  qed
qed

lemma sound_merged_child:
  assumes "sound k a" and "sound k b" and "k \<le> 2"
  shows "sound k (merged_child a b)"
    and "count (merged_child a b) = count a + count b"
    and "stored (merged_child a b) x v = stored a x v + stored b x v"
proof -
  show c: "count (merged_child a b) = count a + count b"
    by (simp add: merged_child_def)
  show s: "stored (merged_child a b) x v = stored a x v + stored b x v" for x v
    using sound_dict_ok [OF assms(1)] sound_dict_ok [OF assms(2)]
    by (simp add: merged_child_def stored_update_counts)
  show "sound k (merged_child a b)"
  proof (rule soundI)
    show "0 < count (merged_child a b)"
      using c sound_counts(1) [OF assms(1)] sound_counts(1) [OF assms(2)] by simp
    show "dict_ok (av_counts (merged_child a b))"
      by (simp add: merged_child_def dict_ok_update_counts)
    show "k \<le> length (children (merged_child a b))"
      using assms(3) by (simp add: merged_child_def)
    show "count (merged_child a b) = (\<Sum>c\<leftarrow>children (merged_child a b). count c)"
      by (simp add: merged_child_def)
    show "stored (merged_child a b) x v
        = (\<Sum>c\<leftarrow>children (merged_child a b). stored c x v)" for x v
      using s [of x v] by (simp add: merged_child_def)
    show "sound k y" if "y \<in> set (children (merged_child a b))" for y
      using that assms(1,2) by (auto simp: merged_child_def)
  qed
qed

lemma sum_merge_rest:
  fixes f :: "'x \<Rightarrow> int"
  assumes i: "i < length cs" and j: "j < length cs" and ij: "i \<noteq> j"
  shows "(\<Sum>c\<leftarrow>remove_child (if i < j then j - 1 else j) (remove_child i cs). f c)
           + f (cs ! i) + f (cs ! j) = (\<Sum>c\<leftarrow>cs. f c)"
proof -
  let ?j' = "if i < j then j - 1 else j"
  have j': "?j' < length (remove_child i cs)"
    using i j ij by (auto simp: length_remove_child)
  have nth: "remove_child i cs ! ?j' = cs ! j"
    using i j ij by (auto simp: nth_remove_child)
  from sum_remove_child [OF j', of f] sum_remove_child [OF i, of f] nth
  show ?thesis by simp
qed

lemma sound_merge:
  assumes s: "sound k n" and l: "2 < length (children n)"
    and i: "i < length (children n)" and j: "j < length (children n)" and ij: "i \<noteq> j"
    and k: "k \<le> 2"
    and m': "sound k m'"
    and c: "count m' = count (merged_child (children n ! i) (children n ! j)) + 1"
    and st: "\<And>a v. stored m' a v
        = stored (merged_child (children n ! i) (children n ! j)) a v + occurrences inst a v"
  shows "sound k (with_children (increment_counts n inst)
           (remove_child (if i < j then j - 1 else j) (remove_child i (children n)) @ [m']))"
proof (rule soundI)
  let ?rest = "remove_child (if i < j then j - 1 else j) (remove_child i (children n))"
  let ?n' = "with_children (increment_counts n inst) (?rest @ [m'])"
  from i have ne: "children n \<noteq> []" by auto
  have si: "sound k (children n ! i)" and sj: "sound k (children n ! j)"
    using sound_children [OF s] i j by simp_all
  note mc = sound_merged_child(2,3) [OF si sj k]
  have lr: "length ?rest = length (children n) - 2"
    using i j ij by (auto simp: length_remove_child)
  show "0 < count ?n'" using sound_counts(1) [OF s] by simp
  show "dict_ok (av_counts ?n')"
    using sound_dict_ok [OF s] by (simp add: dict_ok_increment_counts)
  show "k \<le> length (children ?n')"
    using lr l k by simp
  show "count ?n' = (\<Sum>x\<leftarrow>children ?n'. count x)"
    using sound_count_sum [OF s ne] c mc(1) sum_merge_rest [OF i j ij, of count]
    by simp
  show "stored ?n' a v = (\<Sum>x\<leftarrow>children ?n'. stored x a v)" for a v
    using sound_stored_sum [OF s ne, of a v] st [of a v] mc(2) [of a v]
      sum_merge_rest [OF i j ij, of "\<lambda>c. stored c a v"]
    by (simp add: stored_increment_counts)
  show "sound k x" if "x \<in> set (children ?n')" for x
  proof -
    have "set ?rest \<subseteq> set (children n)"
      using set_remove_child [of "if i < j then j - 1 else j" "remove_child i (children n)"]
        set_remove_child [of i "children n"] by blast
    with that have "x = m' \<or> x \<in> set (children n)" by auto
    with m' sound_children [OF s] show ?thesis by auto
  qed
qed

lemma sound_split:
  assumes s: "sound k n" and i: "i < length (children n)"
    and g: "children (children n ! i) \<noteq> []"
  shows "sound k (with_children n (remove_child i (children n) @ children (children n ! i)))"
proof (rule soundI)
  let ?b = "children n ! i"
  let ?n' = "with_children n (remove_child i (children n) @ children ?b)"
  from i have ne: "children n \<noteq> []" by auto
  have sb: "sound k ?b" using sound_children [OF s] i by simp
  show "0 < count ?n'" using sound_counts(1) [OF s] by simp
  show "dict_ok (av_counts ?n')" using sound_dict_ok [OF s] by simp
  show "k \<le> length (children ?n')"
    using sound_length [OF sb g] by simp
  show "count ?n' = (\<Sum>x\<leftarrow>children ?n'. count x)"
    using sound_count_sum [OF s ne] sound_count_sum [OF sb g]
      sum_remove_child [OF i, of count]
    by simp
  show "stored ?n' a v = (\<Sum>x\<leftarrow>children ?n'. stored x a v)" for a v
    using sound_stored_sum [OF s ne, of a v] sound_stored_sum [OF sb g, of a v]
      sum_remove_child [OF i, of "\<lambda>c. stored c a v"]
    by simp
  show "sound k x" if "x \<in> set (children ?n')" for x
  proof -
    from that have "x \<in> set (children n) \<or> x \<in> set (children ?b)"
      using set_remove_child [of i "children n"] by auto
    with sound_children [OF s] sound_children [OF sb] show ?thesis by auto
  qed
qed

subsection \<open>The driver keeps the invariant\<close>

lemma cobweb_sound:
  assumes "sound k n" and "k \<le> 2"
  shows "\<exists>n' path. cobweb min_cu n inst = Inr (n', path) \<and> sound k n'
           \<and> count n' = count n + 1
           \<and> (\<forall>a v. stored n' a v = stored n a v + occurrences inst a v)"
  using assms
proof (induction min_cu n inst rule: cobweb.induct)
  case (1 min_cu current inst)
  note s = \<open>sound k current\<close> and k = \<open>k \<le> 2\<close>
  note pos = sound_counts [OF s]
  show ?case
  proof (cases "children current = []")
    case True
    from pos(1) have "0 \<le> count current" by simp
    from cu_for_fringe_split_defined [OF this] obtain cu where
      cu: "cu_for_fringe_split current inst = Inr cu" by blast
    show ?thesis
    proof (cases "cu \<le> min_cu")
      case le: True
      with cobweb_leaf_eq [OF True cu, of min_cu]
      have "cobweb min_cu current inst = Inr (increment_counts current inst, [])" by simp
      with sound_leaf_increment [OF s True, of inst] show ?thesis
        by (simp add: stored_increment_counts)
    next
      case gt: False
      with cobweb_leaf_eq [OF True cu, of min_cu] pos(1)
      have "cobweb min_cu current inst =
          Inr (with_children (increment_counts current inst)
                 [copy_node current, increment_counts new_node inst], [1])" by simp
      with sound_fringe [OF s True k, of inst] show ?thesis
        by (simp add: stored_increment_counts)
    qed
  next
    case ne: False
    from pos(1) have c0: "0 \<le> count current" by simp
    from two_best_children_defined [OF ne c0 pos(2)] obtain b1 b2 where
      t: "two_best_children current inst = Inr (b1, b2)" by blast
    from get_best_operation_defined [OF s t] obtain u nm where
      g: "get_best_operation current inst b1 b2 default_ops = Inr (u, nm)" by blast
    have i: "snd b1 < length (children current)"
      by (rule two_best_children_positions(1) [OF t])
    show ?thesis
    proof (cases "u \<le> min_cu")
      case True
      from cobweb_prune_eq [OF ne t g True] sound_prune [OF s, of inst] show ?thesis
        by (simp add: stored_increment_counts)
    next
      case gt: False
      from get_best_operation_member [OF g]
      consider (best) "nm = ''best''" | (new) "nm = ''new''"
        | (merge) x2 where "nm = ''merge''" "b2 = Some x2" "2 < length (children current)"
        | (split) "nm = ''split''" "0 < length (children (children current ! snd b1))"
        by blast
      then show ?thesis
      proof cases
        case best
        have sc: "sound k (children current ! snd b1)"
          using sound_children [OF s] i by simp
        from "1.IH"(1) [OF ne t refl g refl gt best sc k] obtain c' path where
          r: "cobweb min_cu (children current ! snd b1) inst = Inr (c', path)"
          and sc': "sound k c'"
          and cc: "count c' = count (children current ! snd b1) + 1"
          and st: "\<And>a v. stored c' a v
              = stored (children current ! snd b1) a v + occurrences inst a v"
          by blast
        from g best have g': "get_best_operation current inst b1 b2 default_ops
            = Inr (u, ''best'')" by simp
        from cobweb_best_eq [OF ne t g' gt] r
        have "cobweb min_cu current inst =
            Inr (with_children (increment_counts current inst)
                   ((children current)[snd b1 := c']), snd b1 # path)" by simp
        with sound_best [OF s i sc' cc st] show ?thesis
          by (simp add: stored_increment_counts)
      next
        case new
        from g new have g': "get_best_operation current inst b1 b2 default_ops
            = Inr (u, ''new'')" by simp
        from cobweb_new_eq [OF ne t g' gt] sound_new [OF s ne, of inst] show ?thesis
          by (simp add: stored_increment_counts)
      next
        case merge
        from two_best_children_positions(2) [OF t merge(2)]
        have j: "snd x2 < length (children current)" and ij: "snd b1 \<noteq> snd x2" by auto
        define rest where "rest = remove_child (if snd b1 < snd x2 then snd x2 - 1 else snd x2)
            (remove_child (snd b1) (children current))"
        define m where
          "m = merged_child (children current ! snd b1) (children current ! snd x2)"
        define n1 where "n1 = with_children (increment_counts current inst) (rest @ [m])"
        have mg: "merge (increment_counts current inst) (snd b1) (snd x2) = Inr n1"
          using i j ij by (simp add: merge_def Let_def n1_def rest_def m_def)
        have lastm: "last (children n1) = m" by (simp add: n1_def)
        have si: "sound k (children current ! snd b1)"
          and sj: "sound k (children current ! snd x2)"
          using sound_children [OF s] i j by simp_all
        have sm: "sound k (last (children n1))"
          unfolding lastm m_def by (rule sound_merged_child(1) [OF si sj k])
        have nb: "nm \<noteq> ''best''" and nn: "nm \<noteq> ''new''"
          using merge(1) by simp_all
        from t merge(2) have t': "two_best_children current inst = Inr (b1, Some x2)" by simp
        from g merge(2) have g2: "get_best_operation current inst b1 (Some x2) default_ops
            = Inr (u, nm)" by simp
        from "1.IH"(2) [OF ne t' refl g2 refl gt nb nn merge(1) refl mg sm k]
        obtain m' path where
          r: "cobweb min_cu (last (children n1)) inst = Inr (m', path)"
          and sm': "sound k m'"
          and cm: "count m' = count m + 1"
          and st: "\<And>a v. stored m' a v = stored m a v + occurrences inst a v"
          unfolding lastm by blast
        from g2 merge(1) have g': "get_best_operation current inst b1 (Some x2) default_ops
            = Inr (u, ''merge'')" by simp
        from cobweb_merge_eq [OF ne t' g' gt mg] r
        have "cobweb min_cu current inst =
            Inr (with_children (increment_counts current inst) (rest @ [m']),
                 (length (children n1) - 1) # path)"
          by (simp add: n1_def)
        moreover have "sound k (with_children (increment_counts current inst) (rest @ [m']))"
          unfolding rest_def
          by (rule sound_merge [OF s merge(3) i j ij k sm' cm [unfolded m_def] st [unfolded m_def]])
        ultimately show ?thesis
          by (simp add: stored_increment_counts)
      next
        case split
        define n1 where "n1 = with_children current
            (remove_child (snd b1) (children current) @ children (children current ! snd b1))"
        have sp: "split current (snd b1) = Inr n1"
          using i by (simp add: split_def n1_def)
        from split(2) have gne: "children (children current ! snd b1) \<noteq> []" by simp
        have s1: "sound k n1"
          unfolding n1_def by (rule sound_split [OF s i gne])
        have nb: "nm \<noteq> ''best''" and nn: "nm \<noteq> ''new''" and nmg: "nm \<noteq> ''merge''"
          using split(1) by simp_all
        from "1.IH"(3) [OF ne t refl g refl gt nb nn nmg split(1) sp s1 k]
        obtain n' path where
          r: "cobweb min_cu n1 inst = Inr (n', path)" and sn': "sound k n'"
          and cn: "count n' = count n1 + 1"
          and st: "\<And>a v. stored n' a v = stored n1 a v + occurrences inst a v"
          by blast
        from g split(1) have g': "get_best_operation current inst b1 b2 default_ops
            = Inr (u, ''split'')" by simp
        from cobweb_split_eq [OF ne t g' gt sp] r
        have "cobweb min_cu current inst = Inr (n', path)" by simp
        with sn' cn st show ?thesis
          by (simp add: n1_def)
      qed
    qed
  qed
qed

lemma cobweb_new_node:
  assumes "k \<le> 1 \<or> 0 \<le> min_cu"
  shows "\<exists>n' path. cobweb min_cu new_node inst = Inr (n', path) \<and> sound k n'"
proof (cases "0 \<le> min_cu")
  case True
  with cobweb_leaf_eq [OF children_new_node cu_for_fringe_split_new_node, of min_cu inst]
  have "cobweb min_cu new_node inst = Inr (increment_counts new_node inst, [])" by simp
  with sound_instance_leaf [of k inst] show ?thesis by simp
next
  case False
  with assms have k: "k \<le> 1" by simp
  from False cobweb_leaf_eq [OF children_new_node cu_for_fringe_split_new_node, of min_cu inst]
  have "cobweb min_cu new_node inst =
      Inr (with_children (increment_counts new_node inst) [increment_counts new_node inst], [0])"
    by simp
  moreover have "sound k
      (with_children (increment_counts new_node inst) [increment_counts new_node inst])"
    by (rule soundI)
      (use k sound_instance_leaf [of k inst]
        in \<open>simp_all add: dict_ok_increment_counts stored_increment_counts\<close>)
  ultimately show ?thesis by simp
qed

lemma fit_sound:
  assumes "k \<le> 1 \<or> (k \<le> 2 \<and> 0 \<le> min_cu)" and "t = new_node \<or> sound k t"
  shows "\<exists>t'. fit min_cu t insts = Inr t' \<and> (t' = new_node \<or> sound k t')"
  using assms(2)
proof (induction insts arbitrary: t)
  case Nil
  then show ?case by simp
next
  case (Cons inst insts)
  from assms(1) have k2: "k \<le> 2" and k1: "k \<le> 1 \<or> 0 \<le> min_cu" by auto
  have "\<exists>t1 path. cobweb min_cu t inst = Inr (t1, path) \<and> sound k t1"
  proof (cases "t = new_node")
    case True
    with cobweb_new_node [OF k1, of inst] show ?thesis by simp
  next
    case False
    with Cons.prems have "sound k t" by simp
    from cobweb_sound [OF this k2, of min_cu inst] show ?thesis by blast
  qed
  then obtain t1 path where c: "cobweb min_cu t inst = Inr (t1, path)" and s: "sound k t1"
    by blast
  from Cons.IH [of t1] s obtain t' where
    "fit min_cu t1 insts = Inr t'" and "t' = new_node \<or> sound k t'" by blast
  with c show ?case by (simp add: ifit_def)
qed

text \<open>
  The trees that \<^verbatim>\<open>fit\<close> builds have the counts that the results on
  \<^verbatim>\<open>two_best_children\<close>, on the leaves and on categorization ask for.
\<close>

lemma sound_counted: "sound k n \<Longrightarrow> counted n"
proof (induction n)
  case (Node c av cs)
  have "0 < count x \<and> counted x" if "x \<in> set cs" for x
  proof -
    from Node.prems that have "sound k x" by simp
    with Node.IH [OF that] sound_counts(1) [of k x] show ?thesis by simp
  qed
  with Node.prems show ?case by simp
qed

lemma fit_counted:
  "\<exists>t. fit min_cu new_node insts = Inr t \<and> counted t \<and> (t = new_node \<or> sound 0 t)"
proof -
  have "(0::nat) \<le> 1 \<or> ((0::nat) \<le> 2 \<and> 0 \<le> min_cu)" by simp
  from fit_sound [OF this, of new_node insts] obtain t where
    f: "fit min_cu new_node insts = Inr t" and s: "t = new_node \<or> sound 0 t" by blast
  have "counted t"
  proof (cases "t = new_node")
    case True
    then show ?thesis by (simp add: new_node_def)
  next
    case False
    with s show ?thesis by (simp add: sound_counted)
  qed
  with f s show ?thesis by blast
qed

lemma conserved_new_node: "conserved new_node"
  by (simp add: new_node_def conserved_at_def)

lemma branching_new_node: "branching new_node"
  by (simp add: new_node_def)

text \<open>
  Claim C1. Whatever the instances given to \<^verbatim>\<open>ifit\<close> one after the other, starting
  from a fresh tree, every call returns and leaves a tree in which counts are conserved:
  at every node that has children the count is the sum of the counts of the children,
  and for every attribute/value pair the count stored at the node is the sum of the
  counts stored at the children.
\<close>

theorem count_conservation:
  "\<exists>t. fit min_cu new_node insts = Inr t \<and> conserved t"
proof -
  have "(0::nat) \<le> 1 \<or> ((0::nat) \<le> 2 \<and> 0 \<le> min_cu)" by simp
  from fit_sound [OF this, of new_node insts] obtain t where
    "fit min_cu new_node insts = Inr t" and "t = new_node \<or> sound 0 t" by blast
  with conserved_new_node sound_conserved [of 0 t] show ?thesis by auto
qed

theorem count_conservation_witness:
  "fit 0 new_node [[(''color'', ''red'')], [(''color'', ''red'')], [(''color'', ''blue'')]]
     = Inr (Node 3 [(''color'', [(''red'', 2), (''blue'', 1)])]
              [Node 2 [(''color'', [(''red'', 2)])] [],
               Node 1 [(''color'', [(''blue'', 1)])] []])
   \<and> conserved (Node 3 [(''color'', [(''red'', 2), (''blue'', 1)])]
              [Node 2 [(''color'', [(''red'', 2)])] [],
               Node 1 [(''color'', [(''blue'', 1)])] []])"
proof -
  have e: "fit 0 new_node
      [[(''color'', ''red'')], [(''color'', ''red'')], [(''color'', ''blue'')]]
     = Inr (Node 3 [(''color'', [(''red'', 2), (''blue'', 1)])]
              [Node 2 [(''color'', [(''red'', 2)])] [],
               Node 1 [(''color'', [(''blue'', 1)])] []])"
    by code_simp
  from count_conservation
    [of 0 "[[(''color'', ''red'')], [(''color'', ''red'')], [(''color'', ''blue'')]]"]
  obtain t where "fit 0 new_node
      [[(''color'', ''red'')], [(''color'', ''red'')], [(''color'', ''blue'')]] = Inr t"
    and "conserved t" by blast
  with e show ?thesis by simp
qed

text \<open>
  Claim C10. Under a threshold \<^verbatim>\<open>min_cu\<close> that is not negative, as the source's
  \<^verbatim>\<open>0.0\<close>, whatever the instances given to \<^verbatim>\<open>ifit\<close> one after the other, starting
  from a fresh tree, every call returns and leaves a tree in which every node that has
  children has at least two.
\<close>

theorem at_least_two_children:
  assumes "0 \<le> min_cu"
  shows "\<exists>t. fit min_cu new_node insts = Inr t \<and> branching t"
proof -
  from assms have "(2::nat) \<le> 1 \<or> ((2::nat) \<le> 2 \<and> 0 \<le> min_cu)" by simp
  from fit_sound [OF this, of new_node insts] obtain t where
    "fit min_cu new_node insts = Inr t" and "t = new_node \<or> sound 2 t" by blast
  with branching_new_node sound_branching [of t] show ?thesis by auto
qed

theorem at_least_two_children_witness:
  "fit 0 new_node
     [[(''color'', ''red'')], [(''color'', ''red'')], [(''color'', ''blue'')],
      [(''color'', ''blue'')], [(''color'', ''green'')], [(''color'', ''red'')]]
     = Inr (Node 6 [(''color'', [(''red'', 3), (''blue'', 2), (''green'', 1)])]
              [Node 3 [(''color'', [(''red'', 3)])] [],
               Node 2 [(''color'', [(''blue'', 2)])] [],
               Node 1 [(''color'', [(''green'', 1)])] []])
   \<and> branching (Node 6 [(''color'', [(''red'', 3), (''blue'', 2), (''green'', 1)])]
              [Node 3 [(''color'', [(''red'', 3)])] [],
               Node 2 [(''color'', [(''blue'', 2)])] [],
               Node 1 [(''color'', [(''green'', 1)])] []])"
proof -
  have e: "fit 0 new_node
     [[(''color'', ''red'')], [(''color'', ''red'')], [(''color'', ''blue'')],
      [(''color'', ''blue'')], [(''color'', ''green'')], [(''color'', ''red'')]]
     = Inr (Node 6 [(''color'', [(''red'', 3), (''blue'', 2), (''green'', 1)])]
              [Node 3 [(''color'', [(''red'', 3)])] [],
               Node 2 [(''color'', [(''blue'', 2)])] [],
               Node 1 [(''color'', [(''green'', 1)])] []])"
    by code_simp
  have h: "(0 :: real) \<le> 0" by simp
  from at_least_two_children
    [OF h, of "[[(''color'', ''red'')], [(''color'', ''red'')], [(''color'', ''blue'')],
      [(''color'', ''blue'')], [(''color'', ''green'')], [(''color'', ''red'')]]"]
  obtain t where "fit 0 new_node
     [[(''color'', ''red'')], [(''color'', ''red'')], [(''color'', ''blue'')],
      [(''color'', ''blue'')], [(''color'', ''green'')], [(''color'', ''red'')]] = Inr t"
    and "branching t" by blast
  with e show ?thesis by simp
qed

text \<open>
  Below zero the guard \<^verbatim>\<open>if self.count > 0\<close> of
  \<^verbatim>\<open>create_child_with_current_counts\<close> shows: the fringe split of the fresh root, whose
  count is 0, creates the second child only.
\<close>

lemma negative_threshold_single_child:
  "fit (- 1) new_node [[(''color'', ''red'')]]
     = Inr (Node 1 [(''color'', [(''red'', 1)])] [Node 1 [(''color'', [(''red'', 1)])] []])"
  by code_simp

section \<open>Categorization on a store of objects\<close>

text \<open>
  \<^verbatim>\<open>cobweb_categorize\<close> once more, with the objects of the source: a store maps an
  address to an object with its fields \<^verbatim>\<open>count\<close>, \<^verbatim>\<open>av_counts\<close> and
  \<^verbatim>\<open>children\<close>, the children being addresses. \<^verbatim>\<open>Cobweb()\<close> takes the next value
  of the class counter of \<^verbatim>\<open>gensym\<close>, which names the new object; that value is its
  address here. \<^verbatim>\<open>increment_counts\<close>, \<^verbatim>\<open>update_counts_from_node\<close> and
  \<^verbatim>\<open>children.append\<close> write to the object at the address they are given, and
  \<^verbatim>\<open>c == child\<close> compares addresses. The loop of \<^verbatim>\<open>cobweb_categorize\<close> runs on
  fuel: without fuel left there is no result.
\<close>

record ('a, 'v) obj =
  obj_count :: int
  obj_av :: "('a, 'v) avc"
  obj_children :: "nat list"

record ('a, 'v) heap =
  objs :: "nat \<Rightarrow> ('a, 'v) obj"
  counter :: nat

definition h_new :: "('a, 'v) heap \<Rightarrow> nat \<times> ('a, 'v) heap" where
  "h_new h =
     (let c = counter h + 1
      in (c, h\<lparr>objs := (objs h)(c := \<lparr>obj_count = 0, obj_av = [], obj_children = []\<rparr>),
               counter := c\<rparr>))"

definition stats :: "('a, 'v) heap \<Rightarrow> nat \<Rightarrow> ('a, 'v) node" where
  "stats h x = Node (obj_count (objs h x)) (obj_av (objs h x)) []"

definition put_stats :: "('a, 'v) heap \<Rightarrow> nat \<Rightarrow> ('a, 'v) node \<Rightarrow> ('a, 'v) heap" where
  "put_stats h x n =
     h\<lparr>objs := (objs h)(x := (objs h x)\<lparr>obj_count := count n, obj_av := av_counts n\<rparr>)\<rparr>"

definition h_increment_counts ::
  "('a, 'v) heap \<Rightarrow> nat \<Rightarrow> ('a, 'v) inst \<Rightarrow> ('a, 'v) heap" where
  "h_increment_counts h self inst = put_stats h self (increment_counts (stats h self) inst)"

definition h_update_counts_from_node ::
  "('a, 'v) heap \<Rightarrow> nat \<Rightarrow> nat \<Rightarrow> ('a, 'v) heap" where
  "h_update_counts_from_node h self other =
     put_stats h self (update_counts_from_node (stats h self) (stats h other))"

definition h_append_child :: "('a, 'v) heap \<Rightarrow> nat \<Rightarrow> nat \<Rightarrow> ('a, 'v) heap" where
  "h_append_child h self child =
     h\<lparr>objs := (objs h)(self :=
          (objs h self)\<lparr>obj_children := obj_children (objs h self) @ [child]\<rparr>)\<rparr>"

definition view :: "('a, 'v) heap \<Rightarrow> nat \<Rightarrow> ('a, 'v) node" where
  "view h x = with_children (stats h x) (map (stats h) (obj_children (objs h x)))"

definition h_category_utility :: "('a, 'v) heap \<Rightarrow> nat \<Rightarrow> error + real" where
  "h_category_utility h self = category_utility (view h self)"

definition insert_step ::
  "nat \<Rightarrow> nat \<Rightarrow> ('a, 'v) inst \<Rightarrow> nat \<Rightarrow> ('a, 'v) heap \<Rightarrow> ('a, 'v) heap" where
  "insert_step temp child inst c h =
     (let (temp_child, h1) = h_new h;
          h2 = h_update_counts_from_node h1 temp_child c;
          h3 = h_append_child h2 temp temp_child
      in if c = child then h_increment_counts h3 temp_child inst else h3)"

definition h_cu_for_insert ::
  "('a, 'v) heap \<Rightarrow> nat \<Rightarrow> nat \<Rightarrow> ('a, 'v) inst \<Rightarrow> ('a, 'v) heap \<times> (error + real)" where
  "h_cu_for_insert h self child inst =
     (let (temp, h1) = h_new h;
          h2 = h_update_counts_from_node h1 temp self;
          h3 = h_increment_counts h2 temp inst;
          h4 = fold (insert_step temp child inst) (obj_children (objs h3 self)) h3
      in (h4, h_category_utility h4 temp))"

fun h_children_cu ::
  "('a, 'v) heap \<Rightarrow> nat \<Rightarrow> ('a, 'v) inst \<Rightarrow> nat list
     \<Rightarrow> ('a, 'v) heap \<times> (error + (real \<times> nat) list)" where
  "h_children_cu h self inst [] = (h, Inr [])"
| "h_children_cu h self inst (child # rest) =
     (case h_cu_for_insert h self child inst of
        (h1, Inl e) \<Rightarrow> (h1, Inl e)
      | (h1, Inr cu) \<Rightarrow>
          (case h_children_cu h1 self inst rest of
             (h2, Inl e) \<Rightarrow> (h2, Inl e)
           | (h2, Inr children_cu) \<Rightarrow> (h2, Inr ((cu, child) # children_cu))))"

definition h_two_best_children ::
  "('a, 'v) heap \<Rightarrow> nat \<Rightarrow> ('a, 'v) inst
     \<Rightarrow> ('a, 'v) heap \<times> (error + ((real \<times> nat) \<times> (real \<times> nat) option))" where
  "h_two_best_children h self inst =
     (if length (obj_children (objs h self)) = 0 then (h, Inl NoChildren)
      else case h_children_cu h self inst (obj_children (objs h self)) of
             (h1, Inl e) \<Rightarrow> (h1, Inl e)
           | (h1, Inr children_cu) \<Rightarrow>
               (h1, case sort_key (\<lambda>x. - fst x) children_cu of
                      [] \<Rightarrow> Inl IndexError
                    | [b1] \<Rightarrow> Inr (b1, None)
                    | b1 # b2 # rest \<Rightarrow> Inr (b1, Some b2)))"

fun h_cobweb_categorize ::
  "nat \<Rightarrow> ('a, 'v) heap \<Rightarrow> nat \<Rightarrow> ('a, 'v) inst \<Rightarrow> (('a, 'v) heap \<times> (error + nat)) option" where
  "h_cobweb_categorize 0 h current inst = None"
| "h_cobweb_categorize (Suc fuel) h current inst =
     (if obj_children (objs h current) = [] then Some (h, Inr current)
      else case h_two_best_children h current inst of
             (h1, Inl e) \<Rightarrow> Some (h1, Inl e)
           | (h1, Inr (best1, best2)) \<Rightarrow> h_cobweb_categorize fuel h1 (snd best1) inst)"

text \<open>
  A tree in the store: the object at an address holds the counts of the root, and its
  children, all different, are the addresses of the trees below. \<open>frame\<close>: every object
  that the first store holds is the same in the second.
\<close>

fun repr :: "('a, 'v) heap \<Rightarrow> nat \<Rightarrow> ('a, 'v) node \<Rightarrow> bool" where
  "repr h a (Node c av cs) =
     (a \<le> counter h \<and> obj_count (objs h a) = c \<and> obj_av (objs h a) = av
      \<and> distinct (obj_children (objs h a))
      \<and> list_all2 (repr h) (obj_children (objs h a)) cs)"

definition frame :: "('a, 'v) heap \<Rightarrow> ('a, 'v) heap \<Rightarrow> bool" where
  "frame h h' = (counter h \<le> counter h' \<and> (\<forall>x\<le>counter h. objs h' x = objs h x))"

definition kids :: "('a, 'v) heap \<Rightarrow> nat \<Rightarrow> nat list" where
  "kids h x = obj_children (objs h x)"

text \<open>The counts of the temporary child that one round of the loop of \<^verbatim>\<open>cu_for_insert\<close> builds.\<close>

definition temp_child_stats ::
  "('a, 'v) heap \<Rightarrow> nat \<Rightarrow> ('a, 'v) inst \<Rightarrow> nat \<Rightarrow> ('a, 'v) node" where
  "temp_child_stats h child inst c =
     (if c = child
      then increment_counts (update_counts_from_node new_node (stats h c)) inst
      else update_counts_from_node new_node (stats h c))"

text \<open>A result of the tree, with the position of a child replaced by its address.\<close>

definition to_addr :: "nat list \<Rightarrow> real \<times> nat \<Rightarrow> real \<times> nat" where
  "to_addr as b = (fst b, as ! snd b)"

text \<open>The address at the end of a path of child positions.\<close>

fun addr_at :: "('a, 'v) heap \<Rightarrow> nat \<Rightarrow> nat list \<Rightarrow> nat option" where
  "addr_at h a [] = Some a"
| "addr_at h a (i # path) =
     (if i < length (obj_children (objs h a))
      then addr_at h (obj_children (objs h a) ! i) path else None)"

lemma h_new_simps [simp]:
  "fst (h_new h) = counter h + 1"
  "counter (snd (h_new h)) = counter h + 1"
  "objs (snd (h_new h)) x =
     (if x = counter h + 1 then \<lparr>obj_count = 0, obj_av = [], obj_children = []\<rparr> else objs h x)"
  by (simp_all add: h_new_def Let_def)

lemma put_stats_simps [simp]:
  "counter (put_stats h x n) = counter h"
  "objs (put_stats h x n) y =
     (if y = x then (objs h x)\<lparr>obj_count := count n, obj_av := av_counts n\<rparr> else objs h y)"
  by (simp_all add: put_stats_def)

lemma h_append_child_simps [simp]:
  "counter (h_append_child h x c) = counter h"
  "objs (h_append_child h x c) y =
     (if y = x then (objs h x)\<lparr>obj_children := obj_children (objs h x) @ [c]\<rparr> else objs h y)"
  by (simp_all add: h_append_child_def)

lemma update_counts_cong:
  "count a = count b \<Longrightarrow> av_counts a = av_counts b \<Longrightarrow>
   update_counts_from_node n a = update_counts_from_node n b"
  by (simp add: update_counts_from_node_def)

lemma av_counts_increment_counts:
  "av_counts (increment_counts n inst) = fold (\<lambda>(a, v) av. av_add a v 1 av) inst (av_counts n)"
  by (simp add: increment_counts_def)

lemma insert_step_objs:
  assumes "temp \<le> counter h" and "c \<le> counter h"
  shows "objs (insert_step temp child inst c h) x =
     (if x = counter h + 1
      then \<lparr>obj_count = count (temp_child_stats h child inst c),
            obj_av = av_counts (temp_child_stats h child inst c),
            obj_children = []\<rparr>
      else if x = temp
      then (objs h temp)\<lparr>obj_children := obj_children (objs h temp) @ [counter h + 1]\<rparr>
      else objs h x)"
  using assms
  by (simp add: insert_step_def split_beta Let_def h_update_counts_from_node_def
      h_increment_counts_def stats_def temp_child_stats_def new_node_def
      av_counts_increment_counts)

lemma insert_step_counter: "counter (insert_step temp child inst c h) = counter h + 1"
  by (simp add: insert_step_def split_beta Let_def h_update_counts_from_node_def
      h_increment_counts_def)

lemma temp_child_stats_cong:
  "objs h' c = objs h c \<Longrightarrow> temp_child_stats h' child inst c = temp_child_stats h child inst c"
proof -
  assume "objs h' c = objs h c"
  then have "stats h' c = stats h c" by (simp add: stats_def)
  then show ?thesis by (simp only: temp_child_stats_def)
qed

lemma insert_fold:
  assumes "temp \<le> counter h" and "\<forall>c\<in>set as. c \<le> counter h \<and> c \<noteq> temp"
  shows "counter (fold (insert_step temp child inst) as h) = counter h + length as
    \<and> (\<forall>x. objs (fold (insert_step temp child inst) as h) x =
     (if x = temp
      then (objs h temp)\<lparr>obj_children := obj_children (objs h temp)
             @ [Suc (counter h) ..< Suc (counter h) + length as]\<rparr>
      else if counter h < x \<and> x \<le> counter h + length as
      then \<lparr>obj_count = count (temp_child_stats h child inst (as ! (x - Suc (counter h)))),
            obj_av = av_counts (temp_child_stats h child inst (as ! (x - Suc (counter h)))),
            obj_children = []\<rparr>
      else objs h x))"
  using assms
proof (induction as arbitrary: h)
  case Nil
  then show ?case by simp
next
  case (Cons a as)
  define h1 where "h1 = insert_step temp child inst a h"
  from Cons.prems have a: "a \<le> counter h" and t: "temp \<le> counter h" by simp_all
  have c1: "counter h1 = Suc (counter h)"
    by (simp add: h1_def insert_step_counter)
  note o1 = insert_step_objs [OF t a, of child inst, folded h1_def]
  have p1: "temp \<le> counter h1" using t c1 by simp
  have p2: "\<forall>c\<in>set as. c \<le> counter h1 \<and> c \<noteq> temp"
    using Cons.prems(2) c1 by auto
  from Cons.IH [OF p1 p2]
  have ih_c: "counter (fold (insert_step temp child inst) as h1) = counter h1 + length as"
    and ih_o: "\<And>x. objs (fold (insert_step temp child inst) as h1) x =
     (if x = temp
      then (objs h1 temp)\<lparr>obj_children := obj_children (objs h1 temp)
             @ [Suc (counter h1) ..< Suc (counter h1) + length as]\<rparr>
      else if counter h1 < x \<and> x \<le> counter h1 + length as
      then \<lparr>obj_count = count (temp_child_stats h1 child inst (as ! (x - Suc (counter h1)))),
            obj_av = av_counts (temp_child_stats h1 child inst (as ! (x - Suc (counter h1)))),
            obj_children = []\<rparr>
      else objs h1 x)"
    by simp_all
  have same: "temp_child_stats h1 child inst (as ! m) = temp_child_stats h child inst (as ! m)"
    if "m < length as" for m
  proof -
    from that have "as ! m \<in> set as" by simp
    with Cons.prems(2) have "as ! m \<le> counter h" and "as ! m \<noteq> temp" by auto
    then have "objs h1 (as ! m) = objs h (as ! m)" by (simp add: o1)
    then show ?thesis by (rule temp_child_stats_cong)
  qed
  have upt: "[Suc (counter h) ..< Suc (counter h) + length (a # as)]
      = Suc (counter h) # [Suc (counter h1) ..< Suc (counter h1) + length as]"
  proof -
    have "Suc (counter h) < Suc (counter h) + length (a # as)" by simp
    from upt_conv_Cons [OF this] show ?thesis by (simp add: c1)
  qed
  have fold_eq: "fold (insert_step temp child inst) (a # as) h
      = fold (insert_step temp child inst) as h1"
    by (simp add: h1_def)
  show ?case
  proof (intro conjI allI)
    show "counter (fold (insert_step temp child inst) (a # as) h) = counter h + length (a # as)"
      unfolding fold_eq by (simp add: ih_c c1)
    fix x
    consider (temp) "x = temp" | (first) "x = Suc (counter h)"
      | (later) "Suc (counter h) < x" "x \<le> counter h + length (a # as)"
      | (old) "x \<noteq> temp" "x \<le> counter h"
      | (beyond) "counter h + length (a # as) < x"
      by linarith
    then show "objs (fold (insert_step temp child inst) (a # as) h) x =
     (if x = temp
      then (objs h temp)\<lparr>obj_children := obj_children (objs h temp)
             @ [Suc (counter h) ..< Suc (counter h) + length (a # as)]\<rparr>
      else if counter h < x \<and> x \<le> counter h + length (a # as)
      then \<lparr>obj_count = count (temp_child_stats h child inst ((a # as) ! (x - Suc (counter h)))),
            obj_av = av_counts (temp_child_stats h child inst ((a # as) ! (x - Suc (counter h)))),
            obj_children = []\<rparr>
      else objs h x)"
    proof cases
      case temp
      with t show ?thesis
        unfolding fold_eq upt by (simp add: ih_o o1)
    next
      case first
      with t c1 show ?thesis
        unfolding fold_eq by (simp add: ih_o o1)
    next
      case later
      then have m: "x - Suc (counter h1) < length as" using c1 by simp
      from later have idx: "(a # as) ! (x - Suc (counter h)) = as ! (x - Suc (counter h1))"
        using c1 by (simp add: nth_Cons')
      from later t c1 show ?thesis
        unfolding fold_eq idx by (simp add: ih_o same [OF m, unfolded c1])
    next
      case old
      with t c1 show ?thesis
        unfolding fold_eq by (simp add: ih_o o1)
    next
      case beyond
      with t c1 show ?thesis
        unfolding fold_eq by (simp add: ih_o o1)
    qed
  qed
qed

lemma repr_iff:
  "repr h a t =
     (a \<le> counter h \<and> obj_count (objs h a) = count t \<and> obj_av (objs h a) = av_counts t
      \<and> distinct (kids h a) \<and> list_all2 (repr h) (kids h a) (children t))"
  by (cases t) (simp add: kids_def)

lemma repr_frame: "frame h h' \<Longrightarrow> repr h a t \<Longrightarrow> repr h' a t"
proof (induction t arbitrary: a)
  case (Node c av cs)
  from Node.prems(2) have a: "a \<le> counter h" by simp
  with Node.prems(1) have o: "objs h' a = objs h a" and a': "a \<le> counter h'"
    by (simp_all add: frame_def)
  from Node.prems(2) have "list_all2 (repr h) (obj_children (objs h a)) cs" by simp
  then have "list_all2 (repr h') (obj_children (objs h a)) cs"
    by (rule list.rel_mono_strong) (simp add: Node.IH [OF _ Node.prems(1)])
  with Node.prems(2) o a' show ?case by simp
qed

lemma frame_refl [simp]: "frame h h"
  by (simp add: frame_def)

lemma frame_trans: "frame h h1 \<Longrightarrow> frame h1 h2 \<Longrightarrow> frame h h2"
  by (auto simp: frame_def)

lemma repr_child:
  assumes "repr h a t" and "m < length (children t)"
  shows "repr h (kids h a ! m) (children t ! m)" and "length (kids h a) = length (children t)"
  using assms repr_iff [of h a t] by (auto simp: list_all2_conv_all_nth)

lemma childless_stats: "children n = [] \<Longrightarrow> Node (count n) (av_counts n) [] = n"
  by (cases n) simp

lemma temp_child_stats_tree:
  assumes "repr h c x"
  shows "temp_child_stats h child inst c =
     (if c = child then increment_counts (update_counts_from_node new_node x) inst
      else update_counts_from_node new_node x)"
    and "children (temp_child_stats h child inst c) = []"
proof -
  from assms have "count (stats h c) = count x" "av_counts (stats h c) = av_counts x"
    using repr_iff [of h c x] by (simp_all add: stats_def)
  then have e: "update_counts_from_node new_node (stats h c) = update_counts_from_node new_node x"
    by (rule update_counts_cong)
  show "temp_child_stats h child inst c =
     (if c = child then increment_counts (update_counts_from_node new_node x) inst
      else update_counts_from_node new_node x)"
    unfolding temp_child_stats_def e by (rule refl)
  show "children (temp_child_stats h child inst c) = []"
    by (simp add: temp_child_stats_def)
qed

lemma h_cu_for_insert_agrees:
  assumes r: "repr h self t" and k: "k < length (children t)"
  shows "\<exists>h'. h_cu_for_insert h self (kids h self ! k) inst = (h', cu_for_insert t k inst)
           \<and> frame h h'"
proof -
  define as where "as = kids h self"
  define child where "child = as ! k"
  define temp where "temp = counter h + 1"
  define T where "T = increment_counts (update_counts_from_node new_node t) inst"
  define h3 where "h3 = h_increment_counts
      (h_update_counts_from_node (snd (h_new h)) temp self) temp inst"
  define h4 where "h4 = fold (insert_step temp child inst) as h3"
  from r have self: "self \<le> counter h" and dist: "distinct as"
    and st: "count (stats h self) = count t" "av_counts (stats h self) = av_counts t"
    using repr_iff [of h self t] by (simp_all add: as_def stats_def)
  have len: "length as = length (children t)"
    and rc: "\<And>m. m < length (children t) \<Longrightarrow> repr h (as ! m) (children t ! m)"
    using repr_child [OF r] k by (auto simp: as_def)
  have bound: "\<forall>c\<in>set as. c \<le> counter h"
  proof
    fix c assume "c \<in> set as"
    then obtain m where "m < length as" "c = as ! m" by (auto simp: in_set_conv_nth)
    with rc [of m] len show "c \<le> counter h" using repr_iff [of h c] by simp
  qed
  have T': "increment_counts (update_counts_from_node new_node (stats h self)) inst = T"
    unfolding T_def using update_counts_cong [OF st, of new_node] by simp
  have c3: "counter h3 = counter h + 1"
    by (simp add: h3_def h_increment_counts_def h_update_counts_from_node_def)
  have o3: "objs h3 x =
      (if x = temp then \<lparr>obj_count = count T, obj_av = av_counts T, obj_children = []\<rparr>
       else objs h x)" for x
    using self
    by (simp add: h3_def h_increment_counts_def h_update_counts_from_node_def temp_def
        stats_def T' [symmetric, unfolded stats_def] new_node_def av_counts_increment_counts)
  have p1: "temp \<le> counter h3" by (simp add: c3 temp_def)
  have p2: "\<forall>c\<in>set as. c \<le> counter h3 \<and> c \<noteq> temp"
    using bound by (auto simp: c3 temp_def)
  from insert_fold [OF p1 p2, of child inst, folded h4_def]
  have c4: "counter h4 = counter h3 + length as"
    and o4: "\<And>x. objs h4 x =
     (if x = temp
      then (objs h3 temp)\<lparr>obj_children := obj_children (objs h3 temp)
             @ [Suc (counter h3) ..< Suc (counter h3) + length as]\<rparr>
      else if counter h3 < x \<and> x \<le> counter h3 + length as
      then \<lparr>obj_count = count (temp_child_stats h3 child inst (as ! (x - Suc (counter h3)))),
            obj_av = av_counts (temp_child_stats h3 child inst (as ! (x - Suc (counter h3)))),
            obj_children = []\<rparr>
      else objs h x)"
    by (simp_all add: o3 c3 temp_def)
  have fr: "frame h h4"
    by (simp add: frame_def c4 c3 o4 temp_def)
  have ks: "kids h3 self = as"
    using self by (simp add: kids_def o3 temp_def as_def)
  have run: "h_cu_for_insert h self child inst = (h4, h_category_utility h4 temp)"
  proof -
    have "h_cu_for_insert h self child inst =
        (fold (insert_step temp child inst) (kids h3 self) h3,
         h_category_utility (fold (insert_step temp child inst) (kids h3 self) h3) temp)"
      by (simp add: h_cu_for_insert_def split_beta Let_def h3_def temp_def kids_def)
    then show ?thesis by (simp only: ks h4_def)
  qed
  have stats_temp: "stats h4 temp = Node (count T) (av_counts T) []"
    by (simp add: stats_def o4 o3)
  define news where "news = [Suc (counter h3) ..< Suc (counter h3) + length as]"
  have kids_temp: "obj_children (objs h4 temp) = news"
    by (simp add: o4 o3 news_def del: upt_Suc)
  let ?tree_children = "map (\<lambda>(k', c).
                   let temp_child = update_counts_from_node new_node c
                   in if k' = k then increment_counts temp_child inst else temp_child)
                (enumerate 0 (children t))"
  have kids_eq: "map (stats h4) news = ?tree_children"
    unfolding news_def
  proof (rule nth_equalityI)
    show "length (map (stats h4) [Suc (counter h3) ..< Suc (counter h3) + length as])
        = length ?tree_children"
      by (simp add: len del: upt_Suc)
  next
    fix m assume "m < length (map (stats h4) [Suc (counter h3) ..< Suc (counter h3) + length as])"
    then have m: "m < length as" by (simp del: upt_Suc)
    then have m': "m < length (children t)" by (simp add: len)
    have "as ! m \<in> set as" using m by simp
    with bound have "as ! m \<le> counter h" by simp
    then have "objs h3 (as ! m) = objs h (as ! m)" by (simp add: o3 temp_def)
    then have tcs: "temp_child_stats h3 child inst (as ! m)
        = temp_child_stats h child inst (as ! m)"
      by (rule temp_child_stats_cong)
    note tt = temp_child_stats_tree [OF rc [OF m'], of child inst]
    have "stats h4 (Suc (counter h3) + m)
        = Node (count (temp_child_stats h child inst (as ! m)))
            (av_counts (temp_child_stats h child inst (as ! m))) []"
      using m by (simp add: stats_def o4 c3 temp_def tcs)
    also have "\<dots> = temp_child_stats h child inst (as ! m)"
      by (rule childless_stats [OF tt(2)])
    also have "\<dots> = (if as ! m = child
        then increment_counts (update_counts_from_node new_node (children t ! m)) inst
        else update_counts_from_node new_node (children t ! m))"
      by (rule tt(1))
    also have "as ! m = child \<longleftrightarrow> m = k"
      unfolding child_def using dist m k len by (simp add: nth_eq_iff_index_eq)
    finally have "stats h4 (Suc (counter h3) + m)
        = (if m = k
        then increment_counts (update_counts_from_node new_node (children t ! m)) inst
        else update_counts_from_node new_node (children t ! m))" .
    moreover have "?tree_children ! m
        = (if m = k
        then increment_counts (update_counts_from_node new_node (children t ! m)) inst
        else update_counts_from_node new_node (children t ! m))"
      using m' by (simp add: nth_enumerate_eq Let_def)
    ultimately show "map (stats h4) [Suc (counter h3) ..< Suc (counter h3) + length as] ! m
        = ?tree_children ! m"
      using m by (simp del: upt_Suc)
  qed
  have "view h4 temp = with_children T ?tree_children"
    by (simp add: view_def stats_temp kids_temp kids_eq with_children_def)
  then have "h_category_utility h4 temp = cu_for_insert t k inst"
    by (simp add: h_category_utility_def cu_for_insert_def T_def Let_def)
  with run fr show ?thesis
    by (simp add: child_def as_def)
qed

lemma kids_frame: "frame h h' \<Longrightarrow> a \<le> counter h \<Longrightarrow> kids h' a = kids h a"
  by (simp add: frame_def kids_def)

lemma h_children_cu_agrees:
  assumes "repr h self t" and "\<forall>k\<in>set ks. k < length (children t)"
  shows "\<exists>h'. frame h h'
     \<and> h_children_cu h self inst (map (\<lambda>k. kids h self ! k) ks) =
        (h', case collect (map (\<lambda>k. case cu_for_insert t k inst of
                                        Inl e \<Rightarrow> Inl e
                                      | Inr cu \<Rightarrow> Inr (cu, k)) ks) of
               Inl e \<Rightarrow> Inl e
             | Inr xs \<Rightarrow> Inr (map (to_addr (kids h self)) xs))"
  using assms
proof (induction ks arbitrary: h)
  case Nil
  then show ?case by simp
next
  case (Cons k ks)
  from Cons.prems have k: "k < length (children t)" by simp
  from h_cu_for_insert_agrees [OF Cons.prems(1) k, of inst] obtain h1 where
    run: "h_cu_for_insert h self (kids h self ! k) inst = (h1, cu_for_insert t k inst)"
    and f1: "frame h h1" by blast
  show ?case
  proof (cases "cu_for_insert t k inst")
    case (Inl e)
    with run f1 show ?thesis by auto
  next
    case (Inr cu)
    have r1: "repr h1 self t" by (rule repr_frame [OF f1 Cons.prems(1)])
    from Cons.prems(1) have "self \<le> counter h" using repr_iff [of h self t] by simp
    from kids_frame [OF f1 this] have ks1: "kids h1 self = kids h self" .
    from Cons.prems(2) have "\<forall>k\<in>set ks. k < length (children t)" by simp
    from Cons.IH [OF r1 this] obtain h2 where f2: "frame h1 h2"
      and rest: "h_children_cu h1 self inst (map (\<lambda>k. kids h self ! k) ks) =
        (h2, case collect (map (\<lambda>k. case cu_for_insert t k inst of
                                        Inl e \<Rightarrow> Inl e
                                      | Inr cu \<Rightarrow> Inr (cu, k)) ks) of
               Inl e \<Rightarrow> Inl e
             | Inr xs \<Rightarrow> Inr (map (to_addr (kids h self)) xs))"
      unfolding ks1 by blast
    have "frame h h2" by (rule frame_trans [OF f1 f2])
    moreover have "h_children_cu h self inst (map (\<lambda>k. kids h self ! k) (k # ks)) =
        (h2, case collect (map (\<lambda>k. case cu_for_insert t k inst of
                                        Inl e \<Rightarrow> Inl e
                                      | Inr cu \<Rightarrow> Inr (cu, k)) (k # ks)) of
               Inl e \<Rightarrow> Inl e
             | Inr xs \<Rightarrow> Inr (map (to_addr (kids h self)) xs))"
      using run rest Inr by (simp add: to_addr_def split: sum.splits)
    ultimately show ?thesis by blast
  qed
qed

lemma insort_key_map_same:
  assumes "\<And>x. f (g x) = f x"
  shows "insort_key f (g x) (map g ys) = map g (insort_key f x ys)"
  by (induction ys) (simp_all add: assms)

lemma sort_key_map_same:
  assumes "\<And>x. f (g x) = f x"
  shows "sort_key f (map g xs) = map g (sort_key f xs)"
  by (induction xs) (simp_all add: insort_key_map_same [of f g, OF assms])

lemma map_enumerate_index:
  "map (\<lambda>(k, c). g k) (enumerate 0 cs) = map g [0..<length cs]"
  by (rule nth_equalityI) (simp_all add: nth_enumerate_eq)

lemma h_two_best_children_agrees:
  assumes "repr h self t"
  shows "\<exists>h'. frame h h'
     \<and> h_two_best_children h self inst =
        (h', case two_best_children t inst of
               Inl e \<Rightarrow> Inl e
             | Inr (b1, b2) \<Rightarrow>
                 Inr (to_addr (kids h self) b1, map_option (to_addr (kids h self)) b2))"
proof (cases "children t = []")
  case True
  with assms have "kids h self = []" using repr_iff [of h self t] by simp
  with True show ?thesis
    by (simp add: h_two_best_children_def two_best_children_def kids_def)
next
  case False
  define as where "as = kids h self"
  from assms have len: "length as = length (children t)"
    using repr_iff [of h self t] by (auto simp: as_def dest: list_all2_lengthD)
  with False have ne: "as \<noteq> []" by auto
  have all: "map (\<lambda>k. as ! k) [0..<length (children t)] = as"
    using len map_nth [of as] by simp
  have "\<forall>k\<in>set [0..<length (children t)]. k < length (children t)" by simp
  from h_children_cu_agrees [OF assms this, of inst, folded as_def, unfolded all]
  obtain h' where f: "frame h h'"
    and run: "h_children_cu h self inst as =
        (h', case collect (map (\<lambda>k. case cu_for_insert t k inst of
                                        Inl e \<Rightarrow> Inl e
                                      | Inr cu \<Rightarrow> Inr (cu, k)) [0..<length (children t)]) of
               Inl e \<Rightarrow> Inl e
             | Inr xs \<Rightarrow> Inr (map (to_addr as) xs))"
    by blast
  have tree: "map (\<lambda>(k, c). case cu_for_insert t k inst of
                                          Inl e \<Rightarrow> Inl e
                                        | Inr cu \<Rightarrow> Inr (cu, k))
                             (enumerate 0 (children t))
      = map (\<lambda>k. case cu_for_insert t k inst of
                                        Inl e \<Rightarrow> Inl e
                                      | Inr cu \<Rightarrow> Inr (cu, k)) [0..<length (children t)]"
    by (rule map_enumerate_index)
  have srt: "sort_key (\<lambda>x. - fst x) (map (to_addr as) xs)
      = map (to_addr as) (sort_key (\<lambda>x. - fst x) xs)" for xs
    by (rule sort_key_map_same) (simp add: to_addr_def)
  have pick: "(case map (to_addr as) ys of
                      [] \<Rightarrow> Inl IndexError
                    | [b1] \<Rightarrow> Inr (b1, None)
                    | b1 # b2 # rest \<Rightarrow> Inr (b1, Some b2))
      = (case (case ys of
                      [] \<Rightarrow> Inl IndexError
                    | [b1] \<Rightarrow> Inr (b1, None)
                    | b1 # b2 # rest \<Rightarrow> Inr (b1, Some b2)) of
           Inl e \<Rightarrow> Inl e
         | Inr (b1, b2) \<Rightarrow> Inr (to_addr as b1, map_option (to_addr as) b2))" for ys
    by (auto split: list.splits)
  show ?thesis
    using f run False ne
    by (auto simp: h_two_best_children_def two_best_children_def tree srt pick
        as_def [symmetric] kids_def [symmetric] split: sum.splits)
qed

lemma addr_at_repr:
  "repr h a t \<Longrightarrow> node_at t path = Some t' \<Longrightarrow> \<exists>l. addr_at h a path = Some l \<and> repr h l t'"
proof (induction path arbitrary: a t)
  case Nil
  then show ?case by simp
next
  case (Cons i path)
  from Cons.prems(2) have i: "i < length (children t)"
    and n: "node_at (children t ! i) path = Some t'"
    by (simp_all split: if_splits)
  from repr_child [OF Cons.prems(1) i]
  have r: "repr h (kids h a ! i) (children t ! i)" and l: "length (kids h a) = length (children t)"
    by simp_all
  from Cons.IH [OF r n] i l show ?case by (simp add: kids_def)
qed

lemma addr_at_frame:
  "frame h h' \<Longrightarrow> repr h a t \<Longrightarrow> addr_at h' a path = addr_at h a path"
proof (induction path arbitrary: a t)
  case Nil
  then show ?case by simp
next
  case (Cons i path)
  from Cons.prems(2) have a: "a \<le> counter h" using repr_iff [of h a t] by simp
  from kids_frame [OF Cons.prems(1) a] have k: "kids h' a = kids h a" .
  show ?case
  proof (cases "i < length (kids h a)")
    case False
    with k show ?thesis by (simp add: kids_def)
  next
    case True
    from Cons.prems(2) have "length (kids h a) = length (children t)"
      using repr_iff [of h a t] by (auto dest: list_all2_lengthD)
    with True have "i < length (children t)" by simp
    from repr_child(1) [OF Cons.prems(2) this]
    have "repr h (kids h a ! i) (children t ! i)" .
    from Cons.IH [OF Cons.prems(1) this] True k show ?thesis
      by (simp add: kids_def)
  qed
qed

lemma h_cobweb_categorize_agrees:
  "repr h a t \<Longrightarrow> cobweb_categorize t inst = Inr path \<Longrightarrow> length path < fuel \<Longrightarrow>
   \<exists>h' leaf. h_cobweb_categorize fuel h a inst = Some (h', Inr leaf) \<and> frame h h'
      \<and> addr_at h a path = Some leaf"
proof (induction t inst arbitrary: h a path fuel rule: cobweb_categorize.induct)
  case (1 current inst)
  from "1.prems"(3) obtain f where fuel: "fuel = Suc f" by (cases fuel) auto
  from "1.prems"(1) have len: "length (kids h a) = length (children current)"
    using repr_iff [of h a current] by (auto dest: list_all2_lengthD)
  show ?case
  proof (cases "children current = []")
    case True
    with "1.prems"(2) have "path = []" by (subst (asm) cobweb_categorize.simps) simp
    moreover from True len have "obj_children (objs h a) = []" by (simp add: kids_def)
    ultimately show ?thesis by (simp add: fuel)
  next
    case False
    with len have ne: "obj_children (objs h a) \<noteq> []" by (auto simp: kids_def)
    from "1.prems"(2) False obtain b1 b2 path' where
      t: "two_best_children current inst = Inr (b1, b2)"
      and rec: "cobweb_categorize (children current ! snd b1) inst = Inr path'"
      and p: "path = snd b1 # path'"
      by (subst (asm) cobweb_categorize.simps) (auto split: sum.splits)
    have i: "snd b1 < length (children current)"
      by (rule two_best_children_positions(1) [OF t])
    from h_two_best_children_agrees [OF "1.prems"(1), of inst] t obtain h1 where
      f1: "frame h h1"
      and run: "h_two_best_children h a inst =
          (h1, Inr (to_addr (kids h a) b1, map_option (to_addr (kids h a)) b2))"
      by auto
    define c where "c = kids h a ! snd b1"
    have rc: "repr h c (children current ! snd b1)"
      unfolding c_def by (rule repr_child(1) [OF "1.prems"(1) i])
    then have rc1: "repr h1 c (children current ! snd b1)" by (rule repr_frame [OF f1])
    from "1.prems"(3) p fuel have "length path' < f" by simp
    from "1.IH" [OF False t refl rc1 rec this] obtain h' leaf where
      r: "h_cobweb_categorize f h1 c inst = Some (h', Inr leaf)" and f2: "frame h1 h'"
      and at: "addr_at h1 c path' = Some leaf"
      by blast
    from at addr_at_frame [OF f1 rc] have "addr_at h c path' = Some leaf" by simp
    with i len p have "addr_at h a path = Some leaf"
      by (simp add: c_def kids_def)
    moreover have "h_cobweb_categorize fuel h a inst = Some (h', Inr leaf)"
      using ne run r by (simp add: fuel to_addr_def c_def)
    moreover have "frame h h'" by (rule frame_trans [OF f1 f2])
    ultimately show ?thesis by blast
  qed
qed

text \<open>
  Claim C8. In a store that holds a tree whose nodes below the root have positive counts
  and whose root has a count that is not negative, \<^verbatim>\<open>cobweb_categorize\<close> returns with
  enough fuel; the object it returns has no children; every object that the store held
  before the call, its count, its counts of pairs and its children, is the same after
  the call; and a second call, on the store the first one leaves, returns the same object.
\<close>

theorem categorize_reads_only:
  assumes "repr h start t" and "counted t"
  shows "\<exists>path leaf. cobweb_categorize t inst = Inr path
           \<and> addr_at h start path = Some leaf
           \<and> obj_children (objs h leaf) = []
           \<and> (\<forall>fuel>length path.
                \<exists>h'. h_cobweb_categorize fuel h start inst = Some (h', Inr leaf)
                   \<and> counter h \<le> counter h'
                   \<and> (\<forall>x\<le>counter h. objs h' x = objs h x)
                   \<and> (\<forall>fuel'>length path.
                        \<exists>h''. h_cobweb_categorize fuel' h' start inst = Some (h'', Inr leaf)))"
proof -
  from cobweb_categorize_leaf [OF assms(2), of inst] obtain path leaf_node where
    c: "cobweb_categorize t inst = Inr path" and n: "node_at t path = Some leaf_node"
    and l: "children leaf_node = []" by blast
  from addr_at_repr [OF assms(1) n] obtain leaf where
    at: "addr_at h start path = Some leaf" and rl: "repr h leaf leaf_node" by blast
  from rl l have k: "obj_children (objs h leaf) = []"
    using repr_iff [of h leaf leaf_node] by (simp add: kids_def)
  have run: "\<exists>h'. h_cobweb_categorize fuel h start inst = Some (h', Inr leaf)
                   \<and> counter h \<le> counter h'
                   \<and> (\<forall>x\<le>counter h. objs h' x = objs h x)
                   \<and> (\<forall>fuel'>length path.
                        \<exists>h''. h_cobweb_categorize fuel' h' start inst = Some (h'', Inr leaf))"
    if fuel: "length path < fuel" for fuel
  proof -
    from h_cobweb_categorize_agrees [OF assms(1) c fuel] at obtain h' where
      r: "h_cobweb_categorize fuel h start inst = Some (h', Inr leaf)" and f: "frame h h'"
      by auto
    have r': "repr h' start t" by (rule repr_frame [OF f assms(1)])
    have at': "addr_at h' start path = Some leaf"
      using addr_at_frame [OF f assms(1), of path] at by simp
    have "\<exists>h''. h_cobweb_categorize fuel' h' start inst = Some (h'', Inr leaf)"
      if "length path < fuel'" for fuel'
      using h_cobweb_categorize_agrees [OF r' c that] at' by auto
    with r f show ?thesis by (auto simp: frame_def)
  qed
  from c at k run show ?thesis by blast
qed

definition example_tree :: "(string, string) node" where
  "example_tree =
     Node 3 [(''color'', [(''red'', 2), (''blue'', 1)])]
       [Node 2 [(''color'', [(''red'', 2)])] [], Node 1 [(''color'', [(''blue'', 1)])] []]"

definition example_store :: "(string, string) heap" where
  "example_store =
     \<lparr>objs = (\<lambda>x. \<lparr>obj_count = 0, obj_av = [], obj_children = []\<rparr>)
        (1 := \<lparr>obj_count = 3, obj_av = [(''color'', [(''red'', 2), (''blue'', 1)])],
               obj_children = [2, 3]\<rparr>,
         2 := \<lparr>obj_count = 2, obj_av = [(''color'', [(''red'', 2)])], obj_children = []\<rparr>,
         3 := \<lparr>obj_count = 1, obj_av = [(''color'', [(''blue'', 1)])], obj_children = []\<rparr>),
      counter = 3\<rparr>"

theorem categorize_reads_only_witness:
  "\<exists>path leaf. cobweb_categorize example_tree [(''color'', ''red'')] = Inr path
           \<and> addr_at example_store 1 path = Some leaf
           \<and> obj_children (objs example_store leaf) = []
           \<and> (\<forall>fuel>length path.
                \<exists>h'. h_cobweb_categorize fuel example_store 1 [(''color'', ''red'')]
                       = Some (h', Inr leaf)
                   \<and> counter example_store \<le> counter h'
                   \<and> (\<forall>x\<le>counter example_store. objs h' x = objs example_store x)
                   \<and> (\<forall>fuel'>length path.
                        \<exists>h''. h_cobweb_categorize fuel' h' 1 [(''color'', ''red'')]
                                = Some (h'', Inr leaf)))"
proof -
  have 1: "repr example_store 1 example_tree"
    by (simp add: example_store_def example_tree_def)
  have 2: "counted example_tree"
    by (simp add: example_tree_def)
  from categorize_reads_only [OF 1 2] show ?thesis .
qed

end
